theory Spec2Isabelle
  imports Main "HOL-Library.Word" "HOL-Library.Sublist"
begin

unbundle bit_operations_syntax

section \<open>Bytes, errors and the helpers of crypto/utils.ts\<close>

text \<open>
  A \<open>Uint8Array\<close> is a list of 8-bit words. A JavaScript string is modelled by the
  sequence of its UTF-8 bytes (\<open>string\<close> is a list of 8-bit characters): every string
  operation of the source used below (prefix test against an ASCII pattern, \<open>endsWith('/')\<close>,
  \<open>slice(0, -1)\<close> after that test, template concatenation, \<open>TextEncoder.encode\<close>) acts on
  that sequence. A thrown \<open>Error\<close> is the left summand of a result, with the message of the
  source.
\<close>

type_synonym byte = "8 word"
type_synonym bytes = "byte list"

datatype error = Error string

text \<open>\<open>Array.prototype.slice(a, b)\<close> and \<open>slice(a)\<close> for indices inside \<open>0..\<close>.\<close>

definition slice :: "nat \<Rightarrow> nat \<Rightarrow> 'a list \<Rightarrow> 'a list" where
  "slice a b xs = drop a (take b xs)"

definition isHexChar :: "char \<Rightarrow> bool" where
  "isHexChar c = (c \<in> set ''0123456789ABCDEFabcdef'')"

text \<open>The value \<open>parseInt\<close> gives to one hexadecimal digit.\<close>

definition hexVal :: "char \<Rightarrow> nat" where
  "hexVal c =
     (let n = (of_char c :: nat) in
      if 48 \<le> n \<and> n \<le> 57 then n - 48
      else if 65 \<le> n \<and> n \<le> 70 then n - 55
      else n - 87)"

fun parsePairs :: "string \<Rightarrow> bytes" where
  "parsePairs (a # b # rest) = of_nat (hexVal a * 16 + hexVal b) # parsePairs rest"
| "parsePairs _ = []"

definition hexToBytes :: "string \<Rightarrow> error + bytes" where
  "hexToBytes hex =
     (let h = filter isHexChar hex in
      if length h mod 2 \<noteq> 0 then Inl (Error ''Hex string must have even length'')
      else Inr (parsePairs h))"

text \<open>\<open>b.toString(16)\<close>: one or two lower-case digits.\<close>

definition hexLower :: "nat \<Rightarrow> char" where
  "hexLower n = ''0123456789abcdef'' ! n"

definition toString16 :: "byte \<Rightarrow> string" where
  "toString16 b =
     (if unat b < 16 then [hexLower (unat b)]
      else [hexLower (unat b div 16), hexLower (unat b mod 16)])"

definition padStart2 :: "string \<Rightarrow> string" where
  "padStart2 s = replicate (2 - length s) CHR ''0'' @ s"

definition upperChar :: "char \<Rightarrow> char" where
  "upperChar c =
     (let n = (of_char c :: nat) in if 97 \<le> n \<and> n \<le> 122 then char_of (n - 32) else c)"

definition toUpperCase :: "string \<Rightarrow> string" where
  "toUpperCase s = map upperChar s"

definition bytesToHex :: "bytes \<Rightarrow> string" where
  "bytesToHex bs = toUpperCase (concat (map (\<lambda>b. padStart2 (toString16 b)) bs))"

text \<open>\<open>xor\<close> of crypto/utils.ts.\<close>

definition xor_bytes :: "bytes \<Rightarrow> bytes \<Rightarrow> error + bytes" where
  "xor_bytes a b =
     (if length a \<noteq> length b then Inl (Error ''Arrays must be same length for XOR'')
      else Inr (map2 (XOR) a b))"

text \<open>
  \<open>numberToBytes\<close>: the loop runs \<open>i\<close> from \<open>byteLength - 1\<close> down to \<open>0\<close>; the first
  argument of the loop function is \<open>i + 1\<close>. \<open>&\<close> and \<open>>>\<close> act on the 32-bit value of the
  number, which agrees with the integer operations below for the three bytes taken here.
\<close>

primrec numberToBytes_loop :: "nat \<Rightarrow> int \<Rightarrow> bytes \<Rightarrow> bytes" where
  "numberToBytes_loop 0 num bs = bs"
| "numberToBytes_loop (Suc i) num bs =
     numberToBytes_loop i (drop_bit 8 num) (bs[i := of_int (num AND 0xFF)])"

definition numberToBytes :: "int \<Rightarrow> nat \<Rightarrow> bytes" where
  "numberToBytes num byteLength = numberToBytes_loop byteLength num (replicate byteLength 0)"

text \<open>
  \<open>incrementCounter\<close> of crypto/utils.ts: from the least significant byte, a byte \<open>0xFF\<close>
  becomes \<open>0x00\<close> and the loop goes on; any other byte is incremented and the loop breaks.
\<close>

primrec incrementCounter_loop :: "nat \<Rightarrow> bytes \<Rightarrow> bytes" where
  "incrementCounter_loop 0 result = result"
| "incrementCounter_loop (Suc i) result =
     (if result ! i = 0xFF then incrementCounter_loop i (result[i := 0x00])
      else result[i := result ! i + 1])"

definition incrementCounter :: "bytes \<Rightarrow> bytes" where
  "incrementCounter counter = incrementCounter_loop (length counter) counter"

text \<open>The value of a byte sequence read as a big-endian unsigned integer.\<close>

fun be_nat :: "bytes \<Rightarrow> nat" where
  "be_nat [] = 0"
| "be_nat (b # bs) = unat b * 256 ^ length bs + be_nat bs"

section \<open>AES-128 (the block cipher the source takes from the CryptoJS library)\<close>

text \<open>
  Modelled from the spec: the AES-128 block encryption, which the source obtains from the
  CryptoJS library and which is not part of the repository (``Standard AES-128 on 16-byte
  blocks''). The definitions follow FIPS 197: the state is the block in input order (column
  by column), a round is SubBytes, ShiftRows, MixColumns, AddRoundKey, and the last round has
  no MixColumns.
\<close>

definition sbox_table :: "byte list list" where
  "sbox_table = [
   [0x63, 0x7C, 0x77, 0x7B, 0xF2, 0x6B, 0x6F, 0xC5, 0x30, 0x01, 0x67, 0x2B, 0xFE, 0xD7, 0xAB, 0x76],
   [0xCA, 0x82, 0xC9, 0x7D, 0xFA, 0x59, 0x47, 0xF0, 0xAD, 0xD4, 0xA2, 0xAF, 0x9C, 0xA4, 0x72, 0xC0],
   [0xB7, 0xFD, 0x93, 0x26, 0x36, 0x3F, 0xF7, 0xCC, 0x34, 0xA5, 0xE5, 0xF1, 0x71, 0xD8, 0x31, 0x15],
   [0x04, 0xC7, 0x23, 0xC3, 0x18, 0x96, 0x05, 0x9A, 0x07, 0x12, 0x80, 0xE2, 0xEB, 0x27, 0xB2, 0x75],
   [0x09, 0x83, 0x2C, 0x1A, 0x1B, 0x6E, 0x5A, 0xA0, 0x52, 0x3B, 0xD6, 0xB3, 0x29, 0xE3, 0x2F, 0x84],
   [0x53, 0xD1, 0x00, 0xED, 0x20, 0xFC, 0xB1, 0x5B, 0x6A, 0xCB, 0xBE, 0x39, 0x4A, 0x4C, 0x58, 0xCF],
   [0xD0, 0xEF, 0xAA, 0xFB, 0x43, 0x4D, 0x33, 0x85, 0x45, 0xF9, 0x02, 0x7F, 0x50, 0x3C, 0x9F, 0xA8],
   [0x51, 0xA3, 0x40, 0x8F, 0x92, 0x9D, 0x38, 0xF5, 0xBC, 0xB6, 0xDA, 0x21, 0x10, 0xFF, 0xF3, 0xD2],
   [0xCD, 0x0C, 0x13, 0xEC, 0x5F, 0x97, 0x44, 0x17, 0xC4, 0xA7, 0x7E, 0x3D, 0x64, 0x5D, 0x19, 0x73],
   [0x60, 0x81, 0x4F, 0xDC, 0x22, 0x2A, 0x90, 0x88, 0x46, 0xEE, 0xB8, 0x14, 0xDE, 0x5E, 0x0B, 0xDB],
   [0xE0, 0x32, 0x3A, 0x0A, 0x49, 0x06, 0x24, 0x5C, 0xC2, 0xD3, 0xAC, 0x62, 0x91, 0x95, 0xE4, 0x79],
   [0xE7, 0xC8, 0x37, 0x6D, 0x8D, 0xD5, 0x4E, 0xA9, 0x6C, 0x56, 0xF4, 0xEA, 0x65, 0x7A, 0xAE, 0x08],
   [0xBA, 0x78, 0x25, 0x2E, 0x1C, 0xA6, 0xB4, 0xC6, 0xE8, 0xDD, 0x74, 0x1F, 0x4B, 0xBD, 0x8B, 0x8A],
   [0x70, 0x3E, 0xB5, 0x66, 0x48, 0x03, 0xF6, 0x0E, 0x61, 0x35, 0x57, 0xB9, 0x86, 0xC1, 0x1D, 0x9E],
   [0xE1, 0xF8, 0x98, 0x11, 0x69, 0xD9, 0x8E, 0x94, 0x9B, 0x1E, 0x87, 0xE9, 0xCE, 0x55, 0x28, 0xDF],
   [0x8C, 0xA1, 0x89, 0x0D, 0xBF, 0xE6, 0x42, 0x68, 0x41, 0x99, 0x2D, 0x0F, 0xB0, 0x54, 0xBB, 0x16]
  ]"

definition sub_byte :: "byte \<Rightarrow> byte" where
  "sub_byte b = sbox_table ! unat (drop_bit 4 b) ! unat (b AND 0x0F)"

text \<open>Multiplication by \<open>x\<close> in GF(2^8) modulo \<open>x^8 + x^4 + x^3 + x + 1\<close>.\<close>

definition xtime :: "byte \<Rightarrow> byte" where
  "xtime b = (if bit b 7 then push_bit 1 (b AND 0x7F) XOR 0x1B else push_bit 1 b)"

definition xor_block :: "bytes \<Rightarrow> bytes \<Rightarrow> bytes" where
  "xor_block a b = map2 (XOR) a b"

definition sub_bytes :: "bytes \<Rightarrow> bytes" where
  "sub_bytes s = map sub_byte s"

definition shift_rows :: "bytes \<Rightarrow> bytes" where
  "shift_rows s = map (\<lambda>i. s ! i) [0, 5, 10, 15, 4, 9, 14, 3, 8, 13, 2, 7, 12, 1, 6, 11]"

fun mix_columns :: "bytes \<Rightarrow> bytes" where
  "mix_columns (a0 # a1 # a2 # a3 # rest) =
     (xtime a0 XOR (xtime a1 XOR a1) XOR a2 XOR a3) #
     (a0 XOR xtime a1 XOR (xtime a2 XOR a2) XOR a3) #
     (a0 XOR a1 XOR xtime a2 XOR (xtime a3 XOR a3)) #
     ((xtime a0 XOR a0) XOR a1 XOR a2 XOR xtime a3) # mix_columns rest"
| "mix_columns _ = []"

text \<open>Key expansion: \<open>SubWord (RotWord w) XOR Rcon\<close>, then the four words of the next round key.\<close>

definition rot_sub_rcon :: "byte \<Rightarrow> bytes \<Rightarrow> bytes" where
  "rot_sub_rcon rc w = xor_block (map sub_byte (drop 1 w @ take 1 w)) [rc, 0, 0, 0]"

fun chain_words :: "bytes \<Rightarrow> bytes \<Rightarrow> bytes" where
  "chain_words (t0 # t1 # t2 # t3 # ts) (a0 # a1 # a2 # a3 # rest) =
     (a0 XOR t0) # (a1 XOR t1) # (a2 XOR t2) # (a3 XOR t3) #
     chain_words [a0 XOR t0, a1 XOR t1, a2 XOR t2, a3 XOR t3] rest"
| "chain_words _ _ = []"

definition next_round_key :: "byte \<Rightarrow> bytes \<Rightarrow> bytes" where
  "next_round_key rc k = chain_words (rot_sub_rcon rc (drop 12 k)) k"

definition rcon :: "byte list" where
  "rcon = [0x01, 0x02, 0x04, 0x08, 0x10, 0x20, 0x40, 0x80, 0x1B, 0x36]"

fun key_expansion :: "byte list \<Rightarrow> bytes \<Rightarrow> bytes list" where
  "key_expansion [] k = [k]"
| "key_expansion (rc # rcs) k = k # key_expansion rcs (next_round_key rc k)"

fun cipher_rounds :: "bytes list \<Rightarrow> bytes \<Rightarrow> bytes" where
  "cipher_rounds [] s = s"
| "cipher_rounds [k] s = xor_block (shift_rows (sub_bytes s)) k"
| "cipher_rounds (k # ks) s =
     cipher_rounds ks (xor_block (mix_columns (shift_rows (sub_bytes s))) k)"

definition aes128_encrypt_block :: "bytes \<Rightarrow> bytes \<Rightarrow> bytes" where
  "aes128_encrypt_block key block =
     (case key_expansion rcon key of
        [] \<Rightarrow> []
      | k0 # ks \<Rightarrow> cipher_rounds ks (xor_block block k0))"


section \<open>crypto/aes.ts\<close>

text \<open>
  Modelled from the spec: the ECB and CTR modes of the CryptoJS library with no padding.
  ECB encrypts each 16-byte block on its own. In CTR mode the counter block starts at the IV
  and is incremented as a big-endian 128-bit integer per block; block \<open>j\<close> of the keystream is
  the encryption of the \<open>j\<close>-th counter block, and the keystream of the last block is cut to
  the length of the data. The source passes byte arrays to the library and reads the result
  back through hexadecimal strings; that conversion is the identity on byte sequences.
\<close>

function blocks16 :: "bytes \<Rightarrow> bytes list" where
  "blocks16 xs = (if xs = [] then [] else take 16 xs # blocks16 (drop 16 xs))"
  by pat_completeness auto
termination
  by (relation "measure length") auto

declare blocks16.simps [simp del]

definition cryptojs_ecb :: "bytes \<Rightarrow> bytes \<Rightarrow> bytes" where
  "cryptojs_ecb key data = concat (map (aes128_encrypt_block key) (blocks16 data))"

text \<open>The \<open>k\<close> low bytes of a number, most significant byte first.\<close>

fun nat_to_be :: "nat \<Rightarrow> nat \<Rightarrow> bytes" where
  "nat_to_be 0 n = []"
| "nat_to_be (Suc k) n = nat_to_be k (n div 256) @ [of_nat n]"

definition ctr_next :: "bytes \<Rightarrow> bytes" where
  "ctr_next c = nat_to_be 16 ((be_nat c + 1) mod 2 ^ 128)"

primrec ctr_keystream :: "bytes \<Rightarrow> bytes \<Rightarrow> nat \<Rightarrow> bytes" where
  "ctr_keystream key c 0 = []"
| "ctr_keystream key c (Suc n) = aes128_encrypt_block key c @ ctr_keystream key (ctr_next c) n"

definition cryptojs_ctr :: "bytes \<Rightarrow> bytes \<Rightarrow> bytes \<Rightarrow> bytes" where
  "cryptojs_ctr key iv data =
     map2 (XOR) data (ctr_keystream key iv ((length data + 15) div 16))"

definition aesEncryptECB :: "bytes \<Rightarrow> bytes \<Rightarrow> error + bytes" where
  "aesEncryptECB key data =
     (if length key \<noteq> 16 then Inl (Error ''Key must be 16 bytes for AES-128'')
      else if length data mod 16 \<noteq> 0
        then Inl (Error ''Data must be multiple of 16 bytes for ECB mode'')
      else Inr (cryptojs_ecb key data))"

definition aesEncryptCTR :: "bytes \<Rightarrow> bytes \<Rightarrow> bytes \<Rightarrow> error + bytes" where
  "aesEncryptCTR key iv data =
     (if length key \<noteq> 16 then Inl (Error ''Key must be 16 bytes for AES-128'')
      else if length iv \<noteq> 16 then Inl (Error ''IV must be 16 bytes for CTR mode'')
      else Inr (slice 0 (length data) (cryptojs_ctr key iv data)))"

definition aesDecryptCTR :: "bytes \<Rightarrow> bytes \<Rightarrow> bytes \<Rightarrow> error + bytes" where
  "aesDecryptCTR key iv data = aesEncryptCTR key iv data"

definition aesEncryptBlock :: "bytes \<Rightarrow> bytes \<Rightarrow> error + bytes" where
  "aesEncryptBlock key block =
     (if length block \<noteq> 16 then Inl (Error ''Block must be exactly 16 bytes'')
      else aesEncryptECB key block)"

text \<open>
  \<open>leftShiftOne\<close>: the loop runs \<open>i\<close> from \<open>data.length - 1\<close> down to \<open>0\<close>; the first argument
  of the loop function is \<open>i + 1\<close>.
\<close>

primrec leftShiftOne_loop :: "nat \<Rightarrow> bytes \<Rightarrow> bytes \<Rightarrow> byte \<Rightarrow> bytes" where
  "leftShiftOne_loop 0 data result carry = result"
| "leftShiftOne_loop (Suc i) data result carry =
     leftShiftOne_loop i data
       (result[i := (push_bit 1 (data ! i) OR carry) AND 0xFF])
       (drop_bit 7 (data ! i AND 0x80))"

definition leftShiftOne :: "bytes \<Rightarrow> bytes" where
  "leftShiftOne data = leftShiftOne_loop (length data) data (replicate (length data) 0) 0"

definition xorBytes :: "bytes \<Rightarrow> bytes \<Rightarrow> error + bytes" where
  "xorBytes a b =
     (if length a \<noteq> length b then Inl (Error ''Arrays must be same length for XOR'')
      else Inr (map2 (XOR) a b))"

text \<open>
  \<open>L[0] & 0x80\<close> is falsy for an empty array (the read gives \<open>undefined\<close>), hence the
  guard on the length.
\<close>

definition msb_set :: "bytes \<Rightarrow> bool" where
  "msb_set a = (0 < length a \<and> (a ! 0) AND 0x80 \<noteq> 0)"

definition generateCMACSubkeys :: "bytes \<Rightarrow> error + (bytes \<times> bytes)" where
  "generateCMACSubkeys key =
     (let Rb = (replicate 16 0)[15 := 0x87];
          zeroBlock = replicate 16 0
      in case aesEncryptBlock key zeroBlock of
           Inl e \<Rightarrow> Inl e
         | Inr L \<Rightarrow>
             (case (if msb_set L then xorBytes (leftShiftOne L) Rb else Inr (leftShiftOne L)) of
                Inl e \<Rightarrow> Inl e
              | Inr k1 \<Rightarrow>
                  (case (if msb_set k1 then xorBytes (leftShiftOne k1) Rb
                         else Inr (leftShiftOne k1)) of
                     Inl e \<Rightarrow> Inl e
                   | Inr k2 \<Rightarrow> Inr (k1, k2))))"

section \<open>crypto/cmac.ts\<close>

text \<open>
  The loop over the blocks before the last one: \<open>i\<close> runs from \<open>0\<close> to \<open>numBlocks - 2\<close>;
  the list argument holds the indices still to be visited.
\<close>

fun cmac_loop :: "bytes \<Rightarrow> bytes \<Rightarrow> nat list \<Rightarrow> bytes \<Rightarrow> error + bytes" where
  "cmac_loop key message [] mac = Inr mac"
| "cmac_loop key message (i # is) mac =
     (case xor_bytes mac (slice (i * 16) ((i + 1) * 16) message) of
        Inl e \<Rightarrow> Inl e
      | Inr xored \<Rightarrow>
          (case aesEncryptBlock key xored of
             Inl e \<Rightarrow> Inl e
           | Inr mac' \<Rightarrow> cmac_loop key message is mac'))"

definition cmac :: "bytes \<Rightarrow> bytes \<Rightarrow> error + bytes" where
  "cmac key message =
     (if length key \<noteq> 16 then Inl (Error ''Key must be 16 bytes for AES-128 CMAC'')
      else case generateCMACSubkeys key of
        Inl e \<Rightarrow> Inl e
      | Inr (k1, k2) \<Rightarrow>
          (let blockSize = 16;
               numBlocks = (if length message = 0 then 1
                            else (length message + blockSize - 1) div blockSize);
               lastBlockComplete = (length message \<noteq> 0 \<and> length message mod blockSize = 0);
               lastBlockStart = (numBlocks - 1) * blockSize;
               lastBlockData = drop lastBlockStart message;
               padded = (lastBlockData @ replicate (blockSize - length lastBlockData) 0)
                          [length lastBlockData := 0x80]
           in case (if lastBlockComplete then xor_bytes lastBlockData k1
                    else xor_bytes padded k2) of
                Inl e \<Rightarrow> Inl e
              | Inr lastBlock \<Rightarrow>
                  (case cmac_loop key message [0..<numBlocks - 1] (replicate blockSize 0) of
                     Inl e \<Rightarrow> Inl e
                   | Inr mac \<Rightarrow>
                       (case xor_bytes mac lastBlock of
                          Inl e \<Rightarrow> Inl e
                        | Inr xored \<Rightarrow> aesEncryptBlock key xored))))"

definition cmacSDM :: "bytes \<Rightarrow> bytes \<Rightarrow> error + bytes" where
  "cmacSDM key message =
     (case cmac key message of Inl e \<Rightarrow> Inl e | Inr fullCmac \<Rightarrow> Inr (slice 0 8 fullCmac))"

definition cmacPRF :: "bytes \<Rightarrow> bytes \<Rightarrow> error + bytes" where
  "cmacPRF key d = cmac key d"

section \<open>crypto/sessionKeys.ts\<close>

record SDMSessionKeys =
  KSesSDMFileReadMAC :: bytes
  KSesSDMFileEnc :: bytes

text \<open>\<open>TextEncoder.encode\<close> on a string given by its UTF-8 bytes.\<close>

definition encode :: "string \<Rightarrow> bytes" where
  "encode s = map of_char s"

definition deriveKey :: "bytes \<Rightarrow> bytes \<Rightarrow> bytes \<Rightarrow> error + bytes" where
  "deriveKey masterKey sv label =
     (if length masterKey \<noteq> 16 then Inl (Error ''Master key must be 16 bytes'')
      else if length sv \<noteq> 16 then Inl (Error ''Session vector must be 16 bytes'')
      else cmacPRF masterKey ([0x00, 0x01] @ label @ [0x00] @ sv @ [0x00, 0x80]))"

definition deriveSDMSessionKeys :: "bytes \<Rightarrow> bytes \<Rightarrow> bytes option \<Rightarrow> error + SDMSessionKeys" where
  "deriveSDMSessionKeys k1 k2 sv =
     (let sessionVector = (case sv of None \<Rightarrow> replicate 16 0 | Some v \<Rightarrow> v);
          labelFileEnc = encode ''SDMENCFileData'';
          labelFileReadMAC = encode ''SDMFileReadMAC''
      in case deriveKey k1 sessionVector labelFileEnc of
           Inl e \<Rightarrow> Inl e
         | Inr fileEnc \<Rightarrow>
             (case deriveKey k2 sessionVector labelFileReadMAC of
                Inl e \<Rightarrow> Inl e
              | Inr fileReadMAC \<Rightarrow>
                  Inr \<lparr>KSesSDMFileReadMAC = fileReadMAC, KSesSDMFileEnc = fileEnc\<rparr>))"

section \<open>services/SDMService.ts\<close>

record SDMConfig =
  cfg_piccData :: bytes
  cfg_encKey :: bytes
  cfg_macKey :: bytes
  cfg_counter :: bytes
  cfg_uid :: bytes

record SDMMessage =
  encPiccData :: string
  cmacHex :: string
  piccData :: bytes

definition generateSDM :: "SDMConfig \<Rightarrow> error + SDMMessage" where
  "generateSDM config =
     (let picc = cfg_uid config @ cfg_counter config
      in if length picc \<noteq> 10 then Inl (Error ''PICCData must be 10 bytes'')
         else case deriveSDMSessionKeys (cfg_encKey config) (cfg_macKey config) None of
           Inl e \<Rightarrow> Inl e
         | Inr sessionKeys \<Rightarrow>
             (let iv = replicate 16 0
              in case aesEncryptCTR (KSesSDMFileEnc sessionKeys) iv picc of
                   Inl e \<Rightarrow> Inl e
                 | Inr encryptedPiccData \<Rightarrow>
                     (case cmacSDM (KSesSDMFileReadMAC sessionKeys) picc of
                        Inl e \<Rightarrow> Inl e
                      | Inr mac \<Rightarrow>
                          Inr \<lparr>encPiccData = bytesToHex encryptedPiccData,
                               cmacHex = bytesToHex mac,
                               piccData = picc\<rparr>)))"

definition buildLNURL :: "string \<Rightarrow> string \<Rightarrow> SDMMessage \<Rightarrow> string" where
  "buildLNURL baseUrl cardId sdmMessage =
     (let base = (if baseUrl \<noteq> [] \<and> last baseUrl = CHR ''/'' then butlast baseUrl else baseUrl)
      in base @ ''/'' @ cardId @ ''?p='' @ encPiccData sdmMessage @ ''&c='' @ cmacHex sdmMessage)"

text \<open>\<open>s.replace(/^p/, r)\<close> for a literal pattern \<open>p\<close> anchored at the start.\<close>

definition replace_prefix :: "string \<Rightarrow> string \<Rightarrow> string \<Rightarrow> string" where
  "replace_prefix p r s = (if prefix p s then r @ drop (length p) s else s)"

text \<open>
  \<open>new Uint8Array([n])\<close> stores \<open>n\<close> modulo 256, which is what \<open>of_nat\<close> into a byte does.
\<close>

definition buildNDEFMessage :: "string \<Rightarrow> bytes" where
  "buildNDEFMessage lnurlUrl =
     (let uri = replace_prefix ''lnurlw://'' ''https://'' lnurlUrl;
          flags = 0xD1;
          recordType = [0x55];
          uriIdentifier = [0x04];
          uriWithoutPrefix = encode (replace_prefix ''https://'' [] uri);
          fullPayload = uriIdentifier @ uriWithoutPrefix;
          ndefRecord = [flags] @ [of_nat (length recordType)] @ [of_nat (length fullPayload)]
                         @ recordType @ fullPayload
      in [0x03] @ [of_nat (length ndefRecord)] @ ndefRecord @ [0xFE])"

definition generateNDEFWithSDM ::
    "bytes \<Rightarrow> bytes \<Rightarrow> bytes \<Rightarrow> bytes \<Rightarrow> string \<Rightarrow> string \<Rightarrow> error + bytes" where
  "generateNDEFWithSDM uid counter encKey macKey lnurlBase cardId =
     (case generateSDM \<lparr>cfg_piccData = uid @ counter, cfg_encKey = encKey, cfg_macKey = macKey,
                        cfg_counter = counter, cfg_uid = uid\<rparr> of
        Inl e \<Rightarrow> Inl e
      | Inr sdmMessage \<Rightarrow> Inr (buildNDEFMessage (buildLNURL lnurlBase cardId sdmMessage)))"

section \<open>services/StorageService.ts\<close>

text \<open>
  The stored configuration is the JSON of an object built by spreading \<open>DEFAULT_CONFIG\<close>,
  the loaded object and the update, so each field may be absent. The counter is a JavaScript
  number, modelled by an integer. The key-value store is external: it holds at most one item
  under the key of the application, and whether its \<open>getItem\<close> and \<open>setItem\<close> fail is part
  of its state.
\<close>

record HexKeys =
  hexK0 :: string
  hexK1 :: string
  hexK2 :: string
  hexUID :: string

record AppConfig =
  app_keys :: "HexKeys option"
  app_lnurlBase :: "string option"
  app_cardId :: "string option"
  app_counter :: "int option"
  app_enabled :: "bool option"

record AsyncStorage =
  item :: "AppConfig option"
  getItem_fails :: bool
  setItem_fails :: bool

definition DEFAULT_CONFIG :: AppConfig where
  "DEFAULT_CONFIG =
     \<lparr>app_keys = None,
      app_lnurlBase = Some ''https://lnbits.com/boltcards/api/v1/scan'',
      app_cardId = Some [],
      app_counter = Some 0,
      app_enabled = Some False\<rparr>"

text \<open>The object spread \<open>{...a, ...b}\<close>: a field present in \<open>b\<close> wins.\<close>

definition orElse :: "'a option \<Rightarrow> 'a option \<Rightarrow> 'a option" where
  "orElse b a = (case b of None \<Rightarrow> a | Some v \<Rightarrow> Some v)"

definition spread :: "AppConfig \<Rightarrow> AppConfig \<Rightarrow> AppConfig" where
  "spread a b =
     \<lparr>app_keys = orElse (app_keys b) (app_keys a),
      app_lnurlBase = orElse (app_lnurlBase b) (app_lnurlBase a),
      app_cardId = orElse (app_cardId b) (app_cardId a),
      app_counter = orElse (app_counter b) (app_counter a),
      app_enabled = orElse (app_enabled b) (app_enabled a)\<rparr>"

definition emptyConfig :: AppConfig where
  "emptyConfig = \<lparr>app_keys = None, app_lnurlBase = None, app_cardId = None,
                   app_counter = None, app_enabled = None\<rparr>"

definition loadConfig :: "AsyncStorage \<Rightarrow> AppConfig option" where
  "loadConfig store = (if getItem_fails store then None else item store)"

definition saveConfig :: "AppConfig \<Rightarrow> AsyncStorage \<Rightarrow> error + AsyncStorage" where
  "saveConfig config store =
     (if setItem_fails store then Inl (Error ''setItem failed'')
      else Inr (store\<lparr>item := Some config\<rparr>))"

definition updateConfig :: "AppConfig \<Rightarrow> AsyncStorage \<Rightarrow> error + (AppConfig \<times> AsyncStorage)" where
  "updateConfig partial store =
     (let existing = (case loadConfig store of None \<Rightarrow> emptyConfig | Some c \<Rightarrow> c);
          updated = spread (spread DEFAULT_CONFIG existing) partial
      in case saveConfig updated store of
           Inl e \<Rightarrow> Inl e
         | Inr store' \<Rightarrow> Inr (updated, store'))"

text \<open>\<open>config?.counter || 0\<close>: an absent configuration, an absent counter and \<open>0\<close> all give \<open>0\<close>.\<close>

definition counterOrZero :: "AppConfig option \<Rightarrow> int" where
  "counterOrZero config =
     (case config of None \<Rightarrow> 0 | Some c \<Rightarrow> (case app_counter c of None \<Rightarrow> 0 | Some n \<Rightarrow> n))"

definition getCounter :: "AsyncStorage \<Rightarrow> int" where
  "getCounter store = counterOrZero (loadConfig store)"

text \<open>\<open>incrementCounter\<close> of StorageService.ts, under the name its caller imports it by.\<close>

definition incrementStorageCounter :: "AsyncStorage \<Rightarrow> error + (int \<times> AsyncStorage)" where
  "incrementStorageCounter store =
     (let newCounter = counterOrZero (loadConfig store) + 1
      in case updateConfig (emptyConfig\<lparr>app_counter := Some newCounter\<rparr>) store of
           Inl e \<Rightarrow> Inl e
         | Inr (updated, store') \<Rightarrow> Inr (newCounter, store'))"

section \<open>The APDU codec: constants/apdu.ts, apdu/APDUParser.ts, apdu/APDUBuilder.ts, apdu/commands.ts\<close>

record APDUCommand =
  CLA :: byte
  INS :: byte
  P1 :: byte
  P2 :: byte
  Lc :: "byte option"
  cmd_data :: "bytes option"
  Le :: "byte option"

record APDUResponse =
  resp_data :: "bytes option"
  SW1 :: byte
  SW2 :: byte

definition SW_SUCCESS :: nat where "SW_SUCCESS = 0x9000"
definition SW_SECURITY_STATUS_NOT_SATISFIED :: nat where "SW_SECURITY_STATUS_NOT_SATISFIED = 0x6982"
definition SW_FILE_NOT_FOUND :: nat where "SW_FILE_NOT_FOUND = 0x6A82"
definition SW_WRONG_PARAMETERS :: nat where "SW_WRONG_PARAMETERS = 0x6A86"
definition SW_INSTRUCTION_NOT_SUPPORTED :: nat where "SW_INSTRUCTION_NOT_SUPPORTED = 0x6D00"
definition SW_UNKNOWN_ERROR :: nat where "SW_UNKNOWN_ERROR = 0x6F00"

definition FILE_ID_CC :: nat where "FILE_ID_CC = 0x01"
definition FILE_ID_NDEF :: nat where "FILE_ID_NDEF = 0x02"
definition FILE_ID_PROPRIETARY :: nat where "FILE_ID_PROPRIETARY = 0x03"

definition NTAG424_AID :: bytes where
  "NTAG424_AID = [0xD2, 0x76, 0x00, 0x00, 0x85, 0x01, 0x01]"

definition parseAPDU :: "bytes \<Rightarrow> error + APDUCommand" where
  "parseAPDU bs =
     (if length bs < 4 then Inl (Error ''Invalid APDU: too short'')
      else
        let command = \<lparr>CLA = bs ! 0, INS = bs ! 1, P1 = bs ! 2, P2 = bs ! 3,
                        Lc = None, cmd_data = None, Le = None\<rparr>
        in if length bs = 4 then Inr command
           else if length bs = 5 then Inr (command\<lparr>Le := Some (bs ! 4)\<rparr>)
           else
             let lc = unat (bs ! 4)
             in if length bs < 5 + lc then Inl (Error ''Invalid APDU: Lc exceeds the data bytes'')
                else Inr (command
                       \<lparr>Lc := Some (bs ! 4),
                        cmd_data := (if 0 < lc then Some (slice 5 (5 + lc) bs) else None),
                        Le := (if 5 + lc < length bs then Some (bs ! (5 + lc)) else None)\<rparr>))"

definition buildSuccessResponse :: "bytes option \<Rightarrow> APDUResponse" where
  "buildSuccessResponse d =
     \<lparr>resp_data = d,
      SW1 = of_nat (drop_bit 8 SW_SUCCESS AND 0xFF),
      SW2 = of_nat (SW_SUCCESS AND 0xFF)\<rparr>"

definition buildErrorResponse :: "nat \<Rightarrow> APDUResponse" where
  "buildErrorResponse statusWord =
     \<lparr>resp_data = None,
      SW1 = of_nat (drop_bit 8 statusWord AND 0xFF),
      SW2 = of_nat (statusWord AND 0xFF)\<rparr>"

definition serializeResponse :: "APDUResponse \<Rightarrow> bytes" where
  "serializeResponse response =
     (let swBytes = [SW1 response, SW2 response]
      in case resp_data response of
           None \<Rightarrow> swBytes
         | Some d \<Rightarrow> (if 0 < length d then d @ swBytes else swBytes))"

definition isSelectCommand :: "APDUCommand \<Rightarrow> bool" where
  "isSelectCommand command = (INS command = 0xA4)"

definition isSelectByAID :: "APDUCommand \<Rightarrow> bool" where
  "isSelectByAID command = (isSelectCommand command \<and> P1 command = 0x04)"

definition isSelectByFileID :: "APDUCommand \<Rightarrow> bool" where
  "isSelectByFileID command = (isSelectCommand command \<and> P1 command = 0x00)"

definition isReadBinaryCommand :: "APDUCommand \<Rightarrow> bool" where
  "isReadBinaryCommand command = (INS command = 0xB0)"

definition getReadOffset :: "APDUCommand \<Rightarrow> error + nat" where
  "getReadOffset command =
     (if \<not> isReadBinaryCommand command then Inl (Error ''Not a READ BINARY command'')
      else Inr (push_bit 8 (unat (P1 command)) OR unat (P2 command)))"

definition getReadLength :: "APDUCommand \<Rightarrow> error + nat" where
  "getReadLength command =
     (if \<not> isReadBinaryCommand command then Inl (Error ''Not a READ BINARY command'')
      else Inr (case Le command of
                  None \<Rightarrow> 0
                | Some l \<Rightarrow> (if l = 0 then 256 else unat l)))"

definition getSelectAID :: "APDUCommand \<Rightarrow> bytes option" where
  "getSelectAID command = (if \<not> isSelectByAID command then None else cmd_data command)"

definition getSelectFileID :: "APDUCommand \<Rightarrow> nat option" where
  "getSelectFileID command =
     (if \<not> isSelectByFileID command then None
      else case cmd_data command of
             None \<Rightarrow> None
           | Some d \<Rightarrow>
               (if length d = 0 then None
                else if length d = 1 then Some (unat (d ! 0))
                else Some (push_bit 8 (unat (d ! 0)) OR unat (d ! 1))))"

definition bytesEqual :: "bytes \<Rightarrow> bytes \<Rightarrow> bool" where
  "bytesEqual a b = (length a = length b \<and> list_all (\<lambda>i. a ! i = b ! i) [0..<length a])"

section \<open>apdu/handlers/SelectHandler.ts and apdu/handlers/ReadHandler.ts\<close>

text \<open>
  The handlers take callbacks that act on the state of their caller; the handlers are
  therefore functions on a state of any type \<open>'s\<close>, which they return as the callbacks leave
  it. An absent optional callback is \<open>None\<close>.
\<close>

definition handleSelectByAID :: "bytes \<Rightarrow> APDUResponse" where
  "handleSelectByAID aid =
     (if bytesEqual aid NTAG424_AID then buildSuccessResponse None
      else buildErrorResponse SW_FILE_NOT_FOUND)"

definition handleSelectByFileID :: "nat \<Rightarrow> APDUResponse" where
  "handleSelectByFileID fileId =
     (if fileId \<notin> set [FILE_ID_CC, FILE_ID_NDEF, FILE_ID_PROPRIETARY]
        then buildErrorResponse SW_FILE_NOT_FOUND
      else buildSuccessResponse None)"

definition handleSelect ::
    "APDUCommand \<Rightarrow> (nat \<Rightarrow> 's \<Rightarrow> 's) option \<Rightarrow> 's \<Rightarrow> 's \<times> APDUResponse" where
  "handleSelect command onFileSelected s =
     (case getSelectAID command of
        Some aid \<Rightarrow> (s, handleSelectByAID aid)
      | None \<Rightarrow>
          (case getSelectFileID command of
             Some fileId \<Rightarrow>
               (let response = handleSelectByFileID fileId
                in case onFileSelected of
                     Some f \<Rightarrow>
                       (if SW1 response = 0x90 \<and> SW2 response = 0x00 then (f fileId s, response)
                        else (s, response))
                   | None \<Rightarrow> (s, response))
           | None \<Rightarrow> (s, buildErrorResponse SW_WRONG_PARAMETERS)))"

definition handleReadCC :: "nat \<Rightarrow> nat \<Rightarrow> APDUResponse" where
  "handleReadCC offset len =
     (let cc = [0xE1, 0x40, 0x00, 0x40, 0x00, 0x00];
          endOffset = min (offset + len) (length cc)
      in if length cc \<le> offset then buildSuccessResponse (Some [])
         else buildSuccessResponse (Some (slice offset endOffset cc)))"

definition handleReadNDEF ::
    "nat \<Rightarrow> nat \<Rightarrow> ('s \<Rightarrow> error + bytes) \<Rightarrow> 's \<Rightarrow> error + APDUResponse" where
  "handleReadNDEF offset len getNDEFData s =
     (case getNDEFData s of
        Inl e \<Rightarrow> Inl e
      | Inr ndefData \<Rightarrow>
          (let endOffset = min (offset + len) (length ndefData)
           in if length ndefData \<le> offset then Inr (buildSuccessResponse (Some []))
              else Inr (buildSuccessResponse (Some (slice offset endOffset ndefData)))))"

definition handleReadBinary ::
    "APDUCommand \<Rightarrow> nat option \<Rightarrow> ('s \<Rightarrow> error + bytes) \<Rightarrow> ('s \<Rightarrow> 's) option \<Rightarrow> 's
       \<Rightarrow> 's \<times> (error + APDUResponse)" where
  "handleReadBinary command selectedFile getNDEFData onCounterIncrement s =
     (case selectedFile of
        None \<Rightarrow> (s, Inr (buildErrorResponse SW_SECURITY_STATUS_NOT_SATISFIED))
      | Some fileId \<Rightarrow>
          (case getReadOffset command of
             Inl e \<Rightarrow> (s, Inl e)
           | Inr offset \<Rightarrow>
               (case getReadLength command of
                  Inl e \<Rightarrow> (s, Inl e)
                | Inr len \<Rightarrow>
                    (if fileId = FILE_ID_CC then (s, Inr (handleReadCC offset len))
                     else if fileId = FILE_ID_NDEF then
                       (let s' = (case onCounterIncrement of
                                    Some f \<Rightarrow> (if offset = 0 then f s else s)
                                  | None \<Rightarrow> s)
                        in (s', handleReadNDEF offset len getNDEFData s'))
                     else (s, Inr (buildErrorResponse SW_FILE_NOT_FOUND))))))"

section \<open>services/NTAG424Service.ts\<close>

text \<open>
  The service object together with the key-value store its counter is persisted in. The
  \<open>files\<close> map of the state is never read or written and is left out, as is the log
  callback. \<open>handleCounterIncrement\<close> starts the persistence of the counter and does not wait
  for it; a failure of that persistence is caught and logged. In the model the persistence
  runs to its end within the step, and its failure leaves the store as it was.
\<close>

record NTAG424Keys =
  keyK0 :: bytes
  keyK1 :: bytes
  keyK2 :: bytes
  keyUID :: bytes

record NTAG424State =
  selectedFileId :: "nat option"
  authenticated :: bool
  counter :: bytes

record NTAG424Service =
  state :: NTAG424State
  keys :: NTAG424Keys
  lnurlBase :: string
  cardId :: string
  storage :: AsyncStorage

definition newNTAG424Service ::
    "NTAG424Keys \<Rightarrow> string \<Rightarrow> string \<Rightarrow> int \<Rightarrow> AsyncStorage \<Rightarrow> NTAG424Service" where
  "newNTAG424Service ks base cid counterValue store =
     \<lparr>state = \<lparr>selectedFileId = None, authenticated = False,
                counter = numberToBytes counterValue 3\<rparr>,
      keys = ks, lnurlBase = base, cardId = cid, storage = store\<rparr>"

definition generateNDEFData :: "NTAG424Service \<Rightarrow> error + bytes" where
  "generateNDEFData this =
     generateNDEFWithSDM (keyUID (keys this)) (counter (state this))
       (keyK1 (keys this)) (keyK2 (keys this)) (lnurlBase this) (cardId this)"

definition handleCounterIncrement :: "NTAG424Service \<Rightarrow> NTAG424Service" where
  "handleCounterIncrement this =
     this\<lparr>state := (state this)\<lparr>counter := incrementCounter (counter (state this))\<rparr>,
          storage := (case incrementStorageCounter (storage this) of
                        Inl e \<Rightarrow> storage this
                      | Inr (n, store') \<Rightarrow> store')\<rparr>"

definition handleSelectCommand :: "NTAG424Service \<Rightarrow> APDUCommand \<Rightarrow> NTAG424Service \<times> APDUResponse" where
  "handleSelectCommand this command =
     handleSelect command
       (Some (\<lambda>fileId t. t\<lparr>state := (state t)\<lparr>selectedFileId := Some fileId\<rparr>\<rparr>)) this"

definition handleReadCommand ::
    "NTAG424Service \<Rightarrow> APDUCommand \<Rightarrow> NTAG424Service \<times> (error + APDUResponse)" where
  "handleReadCommand this command =
     handleReadBinary command (selectedFileId (state this)) generateNDEFData
       (Some handleCounterIncrement) this"

text \<open>
  \<open>processAPDU\<close>: an exception anywhere inside the \<open>try\<close> block gives the response
  \<open>6F00\<close>; what the handlers changed before the exception stays changed.
\<close>

definition processAPDU :: "NTAG424Service \<Rightarrow> bytes \<Rightarrow> NTAG424Service \<times> bytes" where
  "processAPDU this commandBytes =
     (case parseAPDU commandBytes of
        Inl e \<Rightarrow> (this, serializeResponse (buildErrorResponse SW_UNKNOWN_ERROR))
      | Inr command \<Rightarrow>
          (if isSelectCommand command then
             (case handleSelectCommand this command of
                (this', response) \<Rightarrow> (this', serializeResponse response))
           else if isReadBinaryCommand command then
             (case handleReadCommand this command of
                (this', Inl e) \<Rightarrow> (this', serializeResponse (buildErrorResponse SW_UNKNOWN_ERROR))
              | (this', Inr response) \<Rightarrow> (this', serializeResponse response))
           else (this, serializeResponse (buildErrorResponse SW_INSTRUCTION_NOT_SUPPORTED))))"

text \<open>A sequence of commands, processed in order; the responses are collected.\<close>

fun processAll :: "NTAG424Service \<Rightarrow> bytes list \<Rightarrow> NTAG424Service \<times> bytes list" where
  "processAll this [] = (this, [])"
| "processAll this (c # cs) =
     (case processAPDU this c of
        (this', r) \<Rightarrow> (case processAll this' cs of (this'', rs) \<Rightarrow> (this'', r # rs)))"

section \<open>AES-CMAC as NIST SP 800-38B states it\<close>

text \<open>
  The reference the function \<open>cmac\<close> of the source is compared with, written after the words
  of the specification. A block is a 128-bit word, read from its 16 bytes most significant
  byte first. Subkeys: \<open>L\<close> is the encryption of the zero block, \<open>K1\<close> is \<open>L\<close> shifted left by
  one bit, XORed with \<open>R_b = 0x00...0087\<close> when the most significant bit of \<open>L\<close> is 1, and
  \<open>K2\<close> comes from \<open>K1\<close> in the same way. The message is cut into 16-byte blocks; a full last
  block is XORed with \<open>K1\<close>; a partial last block, or the empty block of an empty message,
  is padded with \<open>0x80\<close> and zero bytes and XORed with \<open>K2\<close>. The chain starts from the zero
  block and encrypts the XOR of the previous output and the next block.
\<close>

definition block_word :: "bytes \<Rightarrow> 128 word" where
  "block_word bs = of_nat (be_nat bs)"

definition word_block :: "128 word \<Rightarrow> bytes" where
  "word_block w = nat_to_be 16 (unat w)"

definition R_b :: "128 word" where
  "R_b = 0x87"

definition nist_dbl :: "128 word \<Rightarrow> 128 word" where
  "nist_dbl l = (if bit l 127 then push_bit 1 l XOR R_b else push_bit 1 l)"

definition nist_subkeys :: "bytes \<Rightarrow> bytes \<times> bytes" where
  "nist_subkeys key =
     (let l = block_word (aes128_encrypt_block key (replicate 16 0));
          k1 = nist_dbl l;
          k2 = nist_dbl k1
      in (word_block k1, word_block k2))"

definition nist_pad :: "bytes \<Rightarrow> bytes" where
  "nist_pad b = b @ [0x80] @ replicate (15 - length b) 0"

definition nist_last_block :: "bytes \<Rightarrow> bytes \<Rightarrow> bytes" where
  "nist_last_block key m =
     (if m = [] then xor_block (nist_pad []) (snd (nist_subkeys key))
      else if length (last (blocks16 m)) = 16
        then xor_block (last (blocks16 m)) (fst (nist_subkeys key))
      else xor_block (nist_pad (last (blocks16 m))) (snd (nist_subkeys key)))"

definition nist_cbc :: "bytes \<Rightarrow> bytes list \<Rightarrow> bytes" where
  "nist_cbc key bs =
     foldl (\<lambda>prev b. aes128_encrypt_block key (xor_block prev b)) (replicate 16 0) bs"

definition nist_cmac :: "bytes \<Rightarrow> bytes \<Rightarrow> bytes" where
  "nist_cmac key m = nist_cbc key (butlast (blocks16 m) @ [nist_last_block key m])"

section \<open>Auxiliary definitions\<close>

text \<open>The subkey step of the source on one block, and the constant it XORs in.\<close>

definition Rb_bytes :: bytes where
  "Rb_bytes = replicate 15 0 @ [0x87]"

definition dbl_bytes :: "bytes \<Rightarrow> bytes" where
  "dbl_bytes a = (if msb_set a then map2 (XOR) (leftShiftOne a) Rb_bytes else leftShiftOne a)"

text \<open>The last block as the source prepares it, with the subkeys as the source derives them.\<close>

definition last_block_bytes :: "bytes \<Rightarrow> bytes \<Rightarrow> bytes" where
  "last_block_bytes key m =
     (let l = aes128_encrypt_block key (replicate 16 0);
          d = drop (((length m + 15) div 16 - 1) * 16) m
      in if m \<noteq> [] \<and> length m mod 16 = 0 then xor_block d (dbl_bytes l)
         else xor_block (nist_pad d) (dbl_bytes (dbl_bytes l)))"

text \<open>What \<open>buildNDEFMessage\<close> puts after the URI identifier code.\<close>

definition uriRest :: "string \<Rightarrow> string" where
  "uriRest url = replace_prefix ''https://'' [] (replace_prefix ''lnurlw://'' ''https://'' url)"

section \<open>Notions used to state the properties of the tag\<close>

text \<open>
  Key material of the sizes the data model fixes, and a counter of three bytes (which the
  constructor and \<open>updateCounter\<close> always produce).
\<close>

definition validService :: "NTAG424Service \<Rightarrow> bool" where
  "validService this =
     (length (keyUID (keys this)) = 7 \<and> length (keyK1 (keys this)) = 16
      \<and> length (keyK2 (keys this)) = 16 \<and> length (counter (state this)) = 3)"

text \<open>A command that parses as READ BINARY with the offset bytes P1 and P2 both zero.\<close>

definition readBinaryAtZero :: "bytes \<Rightarrow> bool" where
  "readBinaryAtZero c =
     (case parseAPDU c of
        Inl e \<Rightarrow> False
      | Inr command \<Rightarrow> isReadBinaryCommand command \<and> P1 command = 0 \<and> P2 command = 0)"

text \<open>The number of bytes a READ BINARY command asks for.\<close>

definition requestedLength :: "bytes \<Rightarrow> nat" where
  "requestedLength c =
     (case parseAPDU c of
        Inl e \<Rightarrow> 0
      | Inr command \<Rightarrow> (case getReadLength command of Inl e \<Rightarrow> 0 | Inr n \<Rightarrow> n))"

text \<open>
  The NDEF file of the tag for the counter value \<open>n\<close> modulo \<open>2^24\<close>, and the response to a
  read of its first bytes: the data followed by the status word \<open>9000\<close>.
\<close>

definition ndefWithCounter :: "NTAG424Service \<Rightarrow> nat \<Rightarrow> error + bytes" where
  "ndefWithCounter this n =
     generateNDEFWithSDM (keyUID (keys this)) (nat_to_be 3 (n mod 2 ^ 24))
       (keyK1 (keys this)) (keyK2 (keys this)) (lnurlBase this) (cardId this)"

definition readResponse :: "NTAG424Service \<Rightarrow> nat \<Rightarrow> bytes \<Rightarrow> bytes option" where
  "readResponse this n c =
     (case ndefWithCounter this n of
        Inl e \<Rightarrow> None
      | Inr ndef \<Rightarrow> Some (take (requestedLength c) ndef @ [0x90, 0x00]))"

section \<open>The literal scenario of the specification\<close>

text \<open>
  The tag of the end-to-end scenarios: K1 = K2 = 16 zero bytes, UID = \<open>04AABBCCDDEEFF\<close>,
  created with the counter value the store holds, after the commands SELECT by AID and
  SELECT of the NDEF file. The second argument says whether writes to the store fail.
\<close>

definition scenarioKeys :: NTAG424Keys where
  "scenarioKeys =
     \<lparr>keyK0 = replicate 16 0, keyK1 = replicate 16 0, keyK2 = replicate 16 0,
      keyUID = [0x04, 0xAA, 0xBB, 0xCC, 0xDD, 0xEE, 0xFF]\<rparr>"

definition scenarioStore :: "int \<Rightarrow> bool \<Rightarrow> AsyncStorage" where
  "scenarioStore n fails =
     \<lparr>item = Some (DEFAULT_CONFIG\<lparr>app_counter := Some n\<rparr>),
      getItem_fails = False, setItem_fails = fails\<rparr>"

definition SELECT_AID :: bytes where
  "SELECT_AID = [0x00, 0xA4, 0x04, 0x00, 0x07, 0xD2, 0x76, 0x00, 0x00, 0x85, 0x01, 0x01]"

definition SELECT_NDEF :: bytes where
  "SELECT_NDEF = [0x00, 0xA4, 0x00, 0x00, 0x02, 0x00, 0x02]"

definition READ_NDEF :: bytes where
  "READ_NDEF = [0x00, 0xB0, 0x00, 0x00, 0xFF]"

definition READ_NDEF_CONTINUED :: bytes where
  "READ_NDEF_CONTINUED = [0x00, 0xB0, 0x00, 0x40, 0xFF]"

definition scenarioTag :: "int \<Rightarrow> bool \<Rightarrow> NTAG424Service" where
  "scenarioTag n fails =
     fst (processAll
            (newNTAG424Service scenarioKeys ''https://lnbits.com/boltcards/api/v1/scan'' ''card1''
               n (scenarioStore n fails))
            [SELECT_AID, SELECT_NDEF])"

text \<open>
  The key of the examples of NIST SP 800-38B for AES-128, and the first 16 bytes of the
  message of those examples.
\<close>

definition NIST_KEY :: bytes where
  "NIST_KEY = [0x2B, 0x7E, 0x15, 0x16, 0x28, 0xAE, 0xD2, 0xA6,
               0xAB, 0xF7, 0x15, 0x88, 0x09, 0xCF, 0x4F, 0x3C]"

definition NIST_MESSAGE_16 :: bytes where
  "NIST_MESSAGE_16 = [0x6B, 0xC1, 0xBE, 0xE2, 0x2E, 0x40, 0x9F, 0x96,
                      0xE9, 0x3D, 0x7E, 0x11, 0x73, 0x93, 0x17, 0x2A]"

section \<open>Properties of the AES model\<close>

lemma length_chain_words:
  "length t = 4 \<Longrightarrow> length (chain_words t k) = 4 * (length k div 4)"
proof (induction t k rule: chain_words.induct)
  case (1 t0 t1 t2 t3 ts a0 a1 a2 a3 rest)
  then have "length (chain_words [a0 XOR t0, a1 XOR t1, a2 XOR t2, a3 XOR t3] rest)
               = 4 * (length rest div 4)" by simp
  moreover have "(4 + length rest) div 4 = Suc (length rest div 4)" by simp
  ultimately show ?case by simp
qed simp_all

lemma length_rot_sub_rcon: "length w = 4 \<Longrightarrow> length (rot_sub_rcon rc w) = 4"
  by (simp add: rot_sub_rcon_def xor_block_def)

lemma length_next_round_key: "length k = 16 \<Longrightarrow> length (next_round_key rc k) = 16"
  by (simp add: next_round_key_def length_chain_words length_rot_sub_rcon)

lemma key_expansion_shape:
  "length k = 16 \<Longrightarrow>
     \<exists>ks. key_expansion rcs k = k # ks \<and> length ks = length rcs \<and> (\<forall>r \<in> set ks. length r = 16)"
proof (induction rcs arbitrary: k)
  case Nil
  then show ?case by simp
next
  case (Cons rc rcs)
  from Cons.prems have "length (next_round_key rc k) = 16" by (rule length_next_round_key)
  from Cons.IH [OF this] this show ?case by auto
qed

lemma length_cipher_rounds:
  "ks \<noteq> [] \<Longrightarrow> \<forall>r \<in> set ks. length r = 16 \<Longrightarrow> length (cipher_rounds ks s) = 16"
proof (induction ks s rule: cipher_rounds.induct)
  case (2 k s)
  then show ?case by (simp add: xor_block_def shift_rows_def)
qed simp_all

lemma length_aes128_encrypt_block:
  "length key = 16 \<Longrightarrow> length (aes128_encrypt_block key block) = 16"
proof -
  assume k: "length key = 16"
  from key_expansion_shape [OF k, of rcon] obtain ks where
    ks: "key_expansion rcon key = key # ks" "length ks = length rcon" "\<forall>r \<in> set ks. length r = 16"
    by blast
  from ks(2) have "ks \<noteq> []" by (auto simp: rcon_def)
  with ks show ?thesis by (simp add: aes128_encrypt_block_def length_cipher_rounds)
qed

section \<open>AES-CTR\<close>

lemma length_ctr_keystream:
  "length key = 16 \<Longrightarrow> length (ctr_keystream key c n) = 16 * n"
  by (induction n arbitrary: c) (simp_all add: length_aes128_encrypt_block)

lemma map2_xor_cancel:
  fixes d :: bytes
  shows "length d \<le> length ks \<Longrightarrow> map2 (XOR) (map2 (XOR) d ks) ks = d"
proof (induction d arbitrary: ks)
  case Nil
  then show ?case by simp
next
  case (Cons x d)
  then obtain k ks' where ks: "ks = k # ks'" by (cases ks) auto
  with Cons.prems have "length d \<le> length ks'" by simp
  from Cons.IH [OF this] ks show ?case by (simp add: xor.assoc)
qed

lemma length_cryptojs_ctr:
  "length key = 16 \<Longrightarrow> length (cryptojs_ctr key iv d) = length d"
proof -
  assume "length key = 16"
  then have "length (ctr_keystream key iv ((length d + 15) div 16)) = 16 * ((length d + 15) div 16)"
    by (rule length_ctr_keystream)
  moreover have "length d \<le> 16 * ((length d + 15) div 16)" by arith
  ultimately show ?thesis by (simp add: cryptojs_ctr_def)
qed

lemma cryptojs_ctr_involution:
  "length key = 16 \<Longrightarrow> cryptojs_ctr key iv (cryptojs_ctr key iv d) = d"
proof -
  assume k: "length key = 16"
  let ?ks = "ctr_keystream key iv ((length d + 15) div 16)"
  have "length ?ks = 16 * ((length d + 15) div 16)" using k by (rule length_ctr_keystream)
  moreover have "length d \<le> 16 * ((length d + 15) div 16)" by arith
  ultimately have le: "length d \<le> length ?ks" by simp
  have "cryptojs_ctr key iv (cryptojs_ctr key iv d) = map2 (XOR) (map2 (XOR) d ?ks) ?ks"
    using length_cryptojs_ctr [OF k, of iv d] by (simp add: cryptojs_ctr_def)
  also have "\<dots> = d" using le by (rule map2_xor_cancel)
  finally show ?thesis .
qed

lemma aesEncryptCTR_ok:
  "length key = 16 \<Longrightarrow> length iv = 16 \<Longrightarrow> aesEncryptCTR key iv d = Inr (cryptojs_ctr key iv d)"
  by (simp add: aesEncryptCTR_def slice_def length_cryptojs_ctr)

text \<open>
  Claim C6. For every 16-byte key and 16-byte IV and data of any length, CTR encryption
  succeeds, its output has exactly the length of its input, and applying it again with the
  same key and IV gives the input back.
\<close>

theorem aesEncryptCTR_self_inverse:
  assumes "length key = 16" and "length iv = 16"
  shows "\<exists>c. aesEncryptCTR key iv p = Inr c \<and> length c = length p
           \<and> aesEncryptCTR key iv c = Inr p"
  using assms by (simp add: aesEncryptCTR_ok length_cryptojs_ctr cryptojs_ctr_involution)

theorem aesEncryptCTR_self_inverse_witness:
  "length (replicate 16 (0::byte)) = 16 \<and>
   (\<exists>c. aesEncryptCTR (replicate 16 0) (replicate 16 0) [1, 2, 3] = Inr c \<and> length c = length [1, 2, 3 :: byte]
      \<and> aesEncryptCTR (replicate 16 0) (replicate 16 0) c = Inr [1, 2, 3])"
  using aesEncryptCTR_self_inverse [of "replicate 16 0" "replicate 16 0" "[1, 2, 3]"] by simp

section \<open>CMAC: subkeys\<close>

lemma blocks16_Nil [simp]: "blocks16 [] = []"
  by (simp add: blocks16.simps)

lemma blocks16_single: "length b = 16 \<Longrightarrow> blocks16 b = [b]"
  by (subst blocks16.simps) auto

lemma aesEncryptBlock_ok:
  "length key = 16 \<Longrightarrow> length b = 16 \<Longrightarrow> aesEncryptBlock key b = Inr (aes128_encrypt_block key b)"
  by (simp add: aesEncryptBlock_def aesEncryptECB_def cryptojs_ecb_def blocks16_single)

lemma length_leftShiftOne_loop:
  "length (leftShiftOne_loop k d r c) = length r"
  by (induction k arbitrary: r c) simp_all

lemma length_leftShiftOne [simp]: "length (leftShiftOne d) = length d"
  by (simp add: leftShiftOne_def length_leftShiftOne_loop)

lemma xorBytes_ok: "length a = length b \<Longrightarrow> xorBytes a b = Inr (map2 (XOR) a b)"
  by (simp add: xorBytes_def)

lemma xor_bytes_ok: "length a = length b \<Longrightarrow> xor_bytes a b = Inr (xor_block a b)"
  by (simp add: xor_bytes_def xor_block_def)

lemma length_xor_block: "length (xor_block a b) = min (length a) (length b)"
  by (simp add: xor_block_def)

lemma Rb_update: "(replicate 16 (0::byte))[15 := 0x87] = Rb_bytes"
  by (simp add: Rb_bytes_def numeral_eq_Suc)

lemma length_dbl_bytes: "length a = 16 \<Longrightarrow> length (dbl_bytes a) = 16"
  by (simp add: dbl_bytes_def Rb_bytes_def)

lemma generateCMACSubkeys_eq:
  assumes "length key = 16"
  shows "generateCMACSubkeys key =
           Inr (dbl_bytes (aes128_encrypt_block key (replicate 16 0)),
                dbl_bytes (dbl_bytes (aes128_encrypt_block key (replicate 16 0))))"
proof -
  let ?L = "aes128_encrypt_block key (replicate 16 0)"
  have L: "length ?L = 16" using assms by (rule length_aes128_encrypt_block)
  have e: "aesEncryptBlock key (replicate 16 0) = Inr ?L"
    using assms by (simp add: aesEncryptBlock_ok)
  have s1: "(if msb_set ?L then xorBytes (leftShiftOne ?L) Rb_bytes else Inr (leftShiftOne ?L))
              = Inr (dbl_bytes ?L)"
    using L by (simp add: dbl_bytes_def xorBytes_ok Rb_bytes_def)
  have L1: "length (dbl_bytes ?L) = 16" using L by (rule length_dbl_bytes)
  have s2: "(if msb_set (dbl_bytes ?L) then xorBytes (leftShiftOne (dbl_bytes ?L)) Rb_bytes
             else Inr (leftShiftOne (dbl_bytes ?L))) = Inr (dbl_bytes (dbl_bytes ?L))"
    using L1 by (simp add: dbl_bytes_def [of "dbl_bytes ?L"] xorBytes_ok Rb_bytes_def)
  show ?thesis
    unfolding generateCMACSubkeys_def Let_def Rb_update e sum.case s1 s2
    by simp
qed

section \<open>CMAC: blocks and the chaining loop\<close>

lemma blocks_step:
  "0 < n \<Longrightarrow> Suc ((n - 16 + 15) div 16) = (n + 15) div (16::nat)"
proof (cases "16 \<le> n")
  case True
  then obtain k where "n = k + 16" by (metis le_add_diff_inverse2)
  then show ?thesis by simp
next
  case False
  assume "0 < n"
  then obtain k where k: "n = Suc k" by (cases n) auto
  with False have "k < 16" by simp
  then show ?thesis using k by simp
qed

lemma blocks_cover: "n \<le> 16 * ((n + 15) div (16::nat))"
proof -
  have "n + 15 = 16 * ((n + 15) div 16) + (n + 15) mod 16" by simp
  moreover have "(n + 15) mod 16 < 16" by simp
  ultimately show ?thesis by linarith
qed

lemma blocks16_Cons: "m \<noteq> [] \<Longrightarrow> blocks16 m = take 16 m # blocks16 (drop 16 m)"
  by (subst blocks16.simps) simp

lemma length_blocks16: "length (blocks16 m) = (length m + 15) div 16"
proof (induction m rule: blocks16.induct)
  case (1 xs)
  show ?case
  proof (cases "xs = []")
    case True
    then show ?thesis by simp
  next
    case False
    then have "length (blocks16 xs) = Suc ((length (drop 16 xs) + 15) div 16)"
      using 1 by (simp add: blocks16_Cons)
    moreover from False have "0 < length xs" by simp
    ultimately show ?thesis by (simp add: blocks_step)
  qed
qed

lemma slice_drop16: "slice a b (drop 16 m) = slice (a + 16) (b + 16) m"
  by (simp add: slice_def take_drop add.commute)

lemma blocks16_nth:
  "i < length (blocks16 m) \<Longrightarrow> blocks16 m ! i = slice (i * 16) ((i + 1) * 16) m"
proof (induction m arbitrary: i rule: blocks16.induct)
  case (1 xs)
  show ?case
  proof (cases "xs = []")
    case True
    with "1.prems" show ?thesis by simp
  next
    case False
    show ?thesis
    proof (cases i)
      case 0
      with False show ?thesis by (simp add: blocks16_Cons slice_def)
    next
      case (Suc j)
      with "1.prems" False have "j < length (blocks16 (drop 16 xs))"
        by (simp add: blocks16_Cons)
      from "1.IH" [OF False this] Suc False show ?thesis
        by (simp add: blocks16_Cons slice_drop16 ac_simps)
    qed
  qed
qed

lemma length_slice: "length (slice a b m) = min b (length m) - a"
  by (simp add: slice_def)

lemma cmac_loop_eq:
  assumes "length key = 16"
  shows "length mac = 16 \<Longrightarrow> \<forall>i \<in> set js. (i + 1) * 16 \<le> length m \<Longrightarrow>
         cmac_loop key m js mac =
           Inr (foldl (\<lambda>prev b. aes128_encrypt_block key (xor_block prev b)) mac
                  (map (\<lambda>i. slice (i * 16) ((i + 1) * 16) m) js))"
proof (induction js arbitrary: mac)
  case Nil
  then show ?case by simp
next
  case (Cons i js)
  let ?b = "slice (i * 16) ((i + 1) * 16) m"
  from Cons.prems have "length ?b = 16" by (simp add: length_slice)
  with Cons.prems have x: "xor_bytes mac ?b = Inr (xor_block mac ?b)"
    by (simp add: xor_bytes_ok)
  have lx: "length (xor_block mac ?b) = 16"
    using Cons.prems \<open>length ?b = 16\<close> by (simp add: length_xor_block)
  have e: "aesEncryptBlock key (xor_block mac ?b) = Inr (aes128_encrypt_block key (xor_block mac ?b))"
    using assms lx by (rule aesEncryptBlock_ok)
  have "length (aes128_encrypt_block key (xor_block mac ?b)) = 16"
    using assms by (rule length_aes128_encrypt_block)
  from Cons.IH [OF this] Cons.prems x e show ?case by simp
qed

lemma butlast_blocks16:
  "butlast (blocks16 m) = map (\<lambda>i. slice (i * 16) ((i + 1) * 16) m) [0..<(length m + 15) div 16 - 1]"
  by (rule nth_equalityI) (simp_all add: length_blocks16 nth_butlast blocks16_nth)

lemma last_blocks16:
  "m \<noteq> [] \<Longrightarrow> last (blocks16 m) = drop (((length m + 15) div 16 - 1) * 16) m"
proof -
  assume ne: "m \<noteq> []"
  then have pos: "0 < (length m + 15) div 16" by (cases m) simp_all
  then have "blocks16 m \<noteq> []" using length_blocks16 [of m] by auto
  then have "last (blocks16 m) = blocks16 m ! ((length m + 15) div 16 - 1)"
    by (simp add: last_conv_nth length_blocks16)
  also have "\<dots> = slice (((length m + 15) div 16 - 1) * 16) (((length m + 15) div 16 - 1 + 1) * 16) m"
    using pos by (intro blocks16_nth) (simp add: length_blocks16)
  also have "\<dots> = drop (((length m + 15) div 16 - 1) * 16) m"
  proof -
    have "length m \<le> ((length m + 15) div 16 - 1 + 1) * 16" using pos by simp
    then show ?thesis by (simp add: slice_def)
  qed
  finally show ?thesis .
qed

lemma r15: "r < 16 \<Longrightarrow> (r + 15) div 16 = (if r = 0 then 0 else (1::nat))"
proof (cases r)
  case 0
  then show ?thesis by simp
next
  case (Suc j)
  assume "r < 16"
  with Suc have "j < 16" by simp
  have "(Suc j + 15) = j + 16" by simp
  then have "(Suc j + 15) div 16 = Suc (j div 16)" by (simp only: div_add_self2)
  with \<open>j < 16\<close> Suc show ?thesis by simp
qed

lemma nblocks_split:
  fixes n :: nat
  shows "(n + 15) div 16 = n div 16 + (if n mod 16 = 0 then 0 else 1)"
proof -
  have "(n + 15) div 16 = (n mod 16 + 15 + 16 * (n div 16)) div 16"
    by (simp add: add.commute add.left_commute)
  also have "\<dots> = n div 16 + (n mod 16 + 15) div 16"
    by (simp only: div_mult_self2)
  also have "(n mod 16 + 15) div 16 = (if n mod 16 = 0 then 0 else 1)"
    by (rule r15) simp
  finally show ?thesis .
qed

lemma last_start_complete:
  fixes n :: nat
  shows "0 < n \<Longrightarrow> n mod 16 = 0 \<Longrightarrow> ((n + 15) div 16 - 1) * 16 = n - 16"
proof -
  assume "0 < n" and m: "n mod 16 = 0"
  then have "n = 16 * (n div 16)" by (metis add.right_neutral mult_div_mod_eq)
  moreover from this \<open>0 < n\<close> have "0 < n div 16" by (cases "n div 16") simp_all
  ultimately show ?thesis using m by (simp add: nblocks_split diff_mult_distrib)
qed

lemma last_start_partial:
  fixes n :: nat
  shows "n mod 16 \<noteq> 0 \<Longrightarrow> ((n + 15) div 16 - 1) * 16 = n - n mod 16"
proof -
  assume m: "n mod 16 \<noteq> 0"
  have "n - n mod 16 = 16 * (n div 16)" by (simp add: minus_mod_eq_mult_div)
  then show ?thesis using m by (simp add: nblocks_split)
qed

lemma last_start_le:
  fixes n :: nat
  shows "((n + 15) div 16 - 1) * 16 \<le> n"
proof (cases "n mod 16 = 0")
  case True
  show ?thesis
  proof (cases "n = 0")
    case True then show ?thesis by simp
  next
    case False
    with True show ?thesis by (simp add: last_start_complete)
  qed
next
  case False
  then show ?thesis by (simp add: last_start_partial)
qed

section \<open>CMAC: the tag as a CBC chain\<close>

lemma length_last_data:
  "m \<noteq> [] \<Longrightarrow> length (drop (((length m + 15) div 16 - 1) * 16) m)
     = (if length m mod 16 = 0 then 16 else length m mod 16)"
proof (cases "length m mod 16 = 0")
  case True
  assume "m \<noteq> []"
  then have pos: "0 < length m" by simp
  with True have "16 \<le> length m" by (metis mod_less neq0_conv not_le)
  moreover from pos True have "((length m + 15) div 16 - 1) * 16 = length m - 16"
    by (rule last_start_complete)
  ultimately show ?thesis using True by (simp only: length_drop) simp
next
  case False
  have "length m mod 16 \<le> length m" by (rule mod_less_eq_dividend)
  moreover from False have "((length m + 15) div 16 - 1) * 16 = length m - length m mod 16"
    by (rule last_start_partial)
  ultimately show ?thesis using False by (simp only: length_drop) simp
qed

lemma padded_eq:
  "length d < 16 \<Longrightarrow> (d @ replicate (16 - length d) (0::byte))[length d := 0x80] = nist_pad d"
proof -
  assume "length d < 16"
  then have "16 - length d = Suc (15 - length d)" by simp
  then show ?thesis by (simp add: nist_pad_def list_update_append)
qed

lemma length_nist_pad: "length d < 16 \<Longrightarrow> length (nist_pad d) = 16"
  by (simp add: nist_pad_def)

lemma length_cbc_fold:
  "length key = 16 \<Longrightarrow> length init = 16 \<Longrightarrow>
     length (foldl (\<lambda>prev b. aes128_encrypt_block key (xor_block prev b)) init bs) = 16"
  by (induction bs rule: rev_induct) (simp_all add: length_aes128_encrypt_block)

lemma cmac_eq:
  assumes k: "length key = 16"
  shows "cmac key m = Inr (nist_cbc key (butlast (blocks16 m) @ [last_block_bytes key m]))"
proof -
  let ?l = "aes128_encrypt_block key (replicate 16 0)"
  let ?n = "(length m + 15) div 16"
  let ?d = "drop ((?n - 1) * 16) m"
  let ?step = "\<lambda>prev b. aes128_encrypt_block key (xor_block prev b)"
  let ?bs = "butlast (blocks16 m)"
  have lk1: "length (dbl_bytes ?l) = 16"
    using k by (simp add: length_dbl_bytes length_aes128_encrypt_block)
  have lk2: "length (dbl_bytes (dbl_bytes ?l)) = 16"
    using lk1 by (rule length_dbl_bytes)
  have nb: "(if length m = 0 then 1 else (length m + 16 - 1) div 16) - 1 = ?n - 1"
    by (simp add: add.commute)
  have last: "(if m \<noteq> [] \<and> length m mod 16 = 0 then xor_bytes ?d (dbl_bytes ?l)
               else xor_bytes ((?d @ replicate (16 - length ?d) 0)[length ?d := 0x80])
                      (dbl_bytes (dbl_bytes ?l)))
              = Inr (last_block_bytes key m)"
  proof (cases "m \<noteq> [] \<and> length m mod 16 = 0")
    case True
    then have "length ?d = 16" using length_last_data [of m] by simp
    with True lk1 show ?thesis by (simp add: last_block_bytes_def xor_bytes_ok)
  next
    case False
    have ld: "length ?d < 16"
    proof (cases "m = []")
      case True then show ?thesis by simp
    next
      case ne: False
      with False have "length m mod 16 \<noteq> 0" by simp
      with ne show ?thesis using length_last_data [of m] by simp
    qed
    from False ld lk2 show ?thesis
      by (simp only: padded_eq last_block_bytes_def Let_def if_False)
         (simp add: xor_bytes_ok length_nist_pad)
  qed
  have ll: "length (last_block_bytes key m) = 16"
  proof (cases "m \<noteq> [] \<and> length m mod 16 = 0")
    case True
    then have "length ?d = 16" using length_last_data [of m] by simp
    with True lk1 show ?thesis by (simp add: last_block_bytes_def length_xor_block)
  next
    case False
    have ld: "length ?d < 16"
    proof (cases "m = []")
      case True then show ?thesis by simp
    next
      case ne: False
      with False have "length m mod 16 \<noteq> 0" by simp
      with ne show ?thesis using length_last_data [of m] by simp
    qed
    from False ld lk2 show ?thesis
      by (simp only: last_block_bytes_def Let_def if_False length_xor_block)
         (simp add: length_nist_pad)
  qed
  have idx: "\<forall>i \<in> set [0..<?n - 1]. (i + 1) * 16 \<le> length m"
  proof
    fix i assume "i \<in> set [0..<?n - 1]"
    then have "i + 1 \<le> ?n - 1" by simp
    then have "(i + 1) * 16 \<le> (?n - 1) * 16" by (rule mult_le_mono1)
    also have "\<dots> \<le> length m" by (rule last_start_le)
    finally show "(i + 1) * 16 \<le> length m" .
  qed
  have loop: "cmac_loop key m [0..<?n - 1] (replicate 16 0) = Inr (foldl ?step (replicate 16 0) ?bs)"
    using cmac_loop_eq [OF k _ idx, of "replicate 16 0"] by (simp add: butlast_blocks16)
  have lm: "length (foldl ?step (replicate 16 0) ?bs) = 16"
    using k by (rule length_cbc_fold) simp
  have fin: "xor_bytes (foldl ?step (replicate 16 0) ?bs) (last_block_bytes key m)
               = Inr (xor_block (foldl ?step (replicate 16 0) ?bs) (last_block_bytes key m))"
    using lm ll by (simp add: xor_bytes_ok)
  have enc: "aesEncryptBlock key (xor_block (foldl ?step (replicate 16 0) ?bs) (last_block_bytes key m))
               = Inr (?step (foldl ?step (replicate 16 0) ?bs) (last_block_bytes key m))"
    using k lm ll by (simp add: aesEncryptBlock_ok length_xor_block)
  have "cmac key m = Inr (?step (foldl ?step (replicate 16 0) ?bs) (last_block_bytes key m))"
    unfolding cmac_def Let_def generateCMACSubkeys_eq [OF k] nb
    using k last loop fin enc by simp
  then show ?thesis by (simp add: nist_cbc_def)
qed

section \<open>Session keys\<close>

lemma cmac_ok:
  assumes "length key = 16"
  shows "\<exists>t. cmac key m = Inr t \<and> length t = 16"
proof -
  have "length (nist_cbc key (butlast (blocks16 m) @ [last_block_bytes key m])) = 16"
    unfolding nist_cbc_def using assms by (rule length_cbc_fold) simp
  with cmac_eq [OF assms, of m] show ?thesis by simp
qed

lemma deriveKey_eq:
  "length mk = 16 \<Longrightarrow> length sv = 16 \<Longrightarrow>
     deriveKey mk sv label = cmac mk ([0x00, 0x01] @ label @ [0x00] @ sv @ [0x00, 0x80])"
  by (simp add: deriveKey_def cmacPRF_def)

lemma deriveKey_error:
  "length mk \<noteq> 16 \<or> length sv \<noteq> 16 \<Longrightarrow> \<exists>e. deriveKey mk sv label = Inl e"
  by (auto simp: deriveKey_def)

lemma deriveSDMSessionKeys_ok:
  assumes "length k1 = 16" and "length k2 = 16" and "length sv = 16"
  shows "\<exists>enc mac.
           cmac k1 ([0x00, 0x01] @ encode ''SDMENCFileData'' @ [0x00] @ sv @ [0x00, 0x80]) = Inr enc
         \<and> cmac k2 ([0x00, 0x01] @ encode ''SDMFileReadMAC'' @ [0x00] @ sv @ [0x00, 0x80]) = Inr mac
         \<and> length enc = 16 \<and> length mac = 16
         \<and> deriveSDMSessionKeys k1 k2 (Some sv)
             = Inr \<lparr>KSesSDMFileReadMAC = mac, KSesSDMFileEnc = enc\<rparr>"
proof -
  let ?ie = "[0x00, 0x01] @ encode ''SDMENCFileData'' @ [0x00] @ sv @ [0x00, 0x80]"
  let ?im = "[0x00, 0x01] @ encode ''SDMFileReadMAC'' @ [0x00] @ sv @ [0x00, 0x80]"
  from cmac_ok [OF assms(1), of ?ie] obtain enc where enc: "cmac k1 ?ie = Inr enc" "length enc = 16"
    by blast
  from cmac_ok [OF assms(2), of ?im] obtain mac where mac: "cmac k2 ?im = Inr mac" "length mac = 16"
    by blast
  have "deriveKey k1 sv (encode ''SDMENCFileData'') = Inr enc"
    using assms enc by (simp only: deriveKey_eq)
  moreover have "deriveKey k2 sv (encode ''SDMFileReadMAC'') = Inr mac"
    using assms mac by (simp only: deriveKey_eq)
  ultimately have "deriveSDMSessionKeys k1 k2 (Some sv)
                     = Inr \<lparr>KSesSDMFileReadMAC = mac, KSesSDMFileEnc = enc\<rparr>"
    by (simp add: deriveSDMSessionKeys_def)
  with enc mac show ?thesis by blast
qed

lemma deriveSDMSessionKeys_default:
  "deriveSDMSessionKeys k1 k2 None = deriveSDMSessionKeys k1 k2 (Some (replicate 16 0))"
  by (simp add: deriveSDMSessionKeys_def)

lemma deriveSDMSessionKeys_error:
  assumes "length k1 \<noteq> 16 \<or> length k2 \<noteq> 16 \<or> length sv \<noteq> 16"
  shows "\<exists>e. deriveSDMSessionKeys k1 k2 (Some sv) = Inl e"
proof (cases "length k1 = 16 \<and> length sv = 16")
  case True
  with assms have "length k2 \<noteq> 16" by simp
  then obtain e where "deriveKey k2 sv (encode ''SDMFileReadMAC'') = Inl e"
    using deriveKey_error by blast
  then show ?thesis by (simp add: deriveSDMSessionKeys_def split: sum.splits)
next
  case False
  then obtain e where "deriveKey k1 sv (encode ''SDMENCFileData'') = Inl e"
    using deriveKey_error by blast
  then show ?thesis by (simp add: deriveSDMSessionKeys_def)
qed

text \<open>
  Claim C5. With 16-byte master keys and a 16-byte session vector the derivation returns
  the two session keys, each one CMAC (one PRF call) under its master key over
  \<open>0x0001 || label || 0x00 || SV || 0x0080\<close> with the labels \<open>SDMENCFileData\<close> (from K1) and
  \<open>SDMFileReadMAC\<close> (from K2); an absent session vector stands for 16 zero bytes; and the
  derivation fails whenever a master key or the session vector does not have 16 bytes.
\<close>

theorem session_key_derivation:
  "(length k1 = 16 \<and> length k2 = 16 \<and> length sv = 16 \<longrightarrow>
      (\<exists>enc mac.
          cmac k1 ([0x00, 0x01] @ encode ''SDMENCFileData'' @ [0x00] @ sv @ [0x00, 0x80]) = Inr enc
        \<and> cmac k2 ([0x00, 0x01] @ encode ''SDMFileReadMAC'' @ [0x00] @ sv @ [0x00, 0x80]) = Inr mac
        \<and> deriveSDMSessionKeys k1 k2 (Some sv)
            = Inr \<lparr>KSesSDMFileReadMAC = mac, KSesSDMFileEnc = enc\<rparr>))
   \<and> deriveSDMSessionKeys k1 k2 None = deriveSDMSessionKeys k1 k2 (Some (replicate 16 0))
   \<and> (length k1 = 16 \<and> length sv = 16 \<longrightarrow>
        deriveKey k1 sv label = cmac k1 ([0x00, 0x01] @ label @ [0x00] @ sv @ [0x00, 0x80]))
   \<and> (length k1 \<noteq> 16 \<or> length sv \<noteq> 16 \<longrightarrow> (\<exists>e. deriveKey k1 sv label = Inl e))
   \<and> (length k1 \<noteq> 16 \<or> length k2 \<noteq> 16 \<or> length sv \<noteq> 16 \<longrightarrow>
        (\<exists>e. deriveSDMSessionKeys k1 k2 (Some sv) = Inl e))"
proof (intro conjI impI)
  assume "length k1 = 16 \<and> length k2 = 16 \<and> length sv = 16"
  then show "\<exists>enc mac.
          cmac k1 ([0x00, 0x01] @ encode ''SDMENCFileData'' @ [0x00] @ sv @ [0x00, 0x80]) = Inr enc
        \<and> cmac k2 ([0x00, 0x01] @ encode ''SDMFileReadMAC'' @ [0x00] @ sv @ [0x00, 0x80]) = Inr mac
        \<and> deriveSDMSessionKeys k1 k2 (Some sv)
            = Inr \<lparr>KSesSDMFileReadMAC = mac, KSesSDMFileEnc = enc\<rparr>"
    using deriveSDMSessionKeys_ok [of k1 k2 sv] by blast
next
  show "deriveSDMSessionKeys k1 k2 None = deriveSDMSessionKeys k1 k2 (Some (replicate 16 0))"
    by (rule deriveSDMSessionKeys_default)
next
  assume "length k1 = 16 \<and> length sv = 16"
  then show "deriveKey k1 sv label = cmac k1 ([0x00, 0x01] @ label @ [0x00] @ sv @ [0x00, 0x80])"
    by (simp add: deriveKey_eq)
next
  assume "length k1 \<noteq> 16 \<or> length sv \<noteq> 16"
  then show "\<exists>e. deriveKey k1 sv label = Inl e" by (rule deriveKey_error)
next
  assume "length k1 \<noteq> 16 \<or> length k2 \<noteq> 16 \<or> length sv \<noteq> 16"
  then show "\<exists>e. deriveSDMSessionKeys k1 k2 (Some sv) = Inl e"
    by (rule deriveSDMSessionKeys_error)
qed

theorem session_key_derivation_witness:
  "(\<exists>enc mac.
      cmac (replicate 16 0)
        ([0x00, 0x01] @ encode ''SDMENCFileData'' @ [0x00] @ replicate 16 0 @ [0x00, 0x80]) = Inr enc
    \<and> cmac (replicate 16 0)
        ([0x00, 0x01] @ encode ''SDMFileReadMAC'' @ [0x00] @ replicate 16 0 @ [0x00, 0x80]) = Inr mac
    \<and> deriveSDMSessionKeys (replicate 16 0) (replicate 16 0) (Some (replicate 16 0))
        = Inr \<lparr>KSesSDMFileReadMAC = mac, KSesSDMFileEnc = enc\<rparr>)
   \<and> (\<exists>e. deriveKey [] (replicate 16 0) [] = Inl e)
   \<and> (\<exists>e. deriveSDMSessionKeys [] (replicate 16 0) (Some (replicate 16 0)) = Inl e)"
  using session_key_derivation [of "replicate 16 0" "replicate 16 0" "replicate 16 0" "[]"]
        session_key_derivation [of "[]" "replicate 16 0" "replicate 16 0" "[]"]
  by simp

section \<open>Hexadecimal strings\<close>

lemma nibble_cases:
  "n < 16 \<Longrightarrow> n \<in> {0, 1, 2, 3, 4, 5, 6, 7, 8, 9, 10, 11, 12, 13, 14, 15::nat}"
  by (simp, arith)

lemma upper_hexLower:
  "n < 16 \<Longrightarrow> upperChar (hexLower n) = ''0123456789ABCDEF'' ! n"
  by (drule nibble_cases) (auto simp: upperChar_def hexLower_def char_of_eq_iff)

lemma isHexChar_upper: "n < 16 \<Longrightarrow> isHexChar (''0123456789ABCDEF'' ! n)"
  by (drule nibble_cases) (auto simp: isHexChar_def)

lemma hexVal_upper: "n < 16 \<Longrightarrow> hexVal (''0123456789ABCDEF'' ! n) = n"
  by (drule nibble_cases) (auto simp: hexVal_def)

lemma byte_hex_digits:
  "toUpperCase (padStart2 (toString16 b))
     = [''0123456789ABCDEF'' ! (unat b div 16), ''0123456789ABCDEF'' ! (unat b mod 16)]"
proof -
  have lt: "unat b < 256" using unsigned_less [of b] by simp
  then have hi: "unat b div 16 < 16" by simp
  have lo: "unat b mod 16 < 16" by simp
  show ?thesis
  proof (cases "unat b < 16")
    case True
    then have "unat b div 16 = 0" "unat b mod 16 = unat b" by simp_all
    with True show ?thesis
      using upper_hexLower [of "unat b"]
      by (simp add: toUpperCase_def padStart2_def toString16_def upperChar_def)
  next
    case False
    then show ?thesis
      using upper_hexLower [OF hi] upper_hexLower [OF lo]
      by (simp add: toUpperCase_def padStart2_def toString16_def)
  qed
qed

lemma bytesToHex_Nil [simp]: "bytesToHex [] = []"
  by (simp add: bytesToHex_def toUpperCase_def)

lemma bytesToHex_Cons:
  "bytesToHex (b # bs)
     = ''0123456789ABCDEF'' ! (unat b div 16) # ''0123456789ABCDEF'' ! (unat b mod 16) # bytesToHex bs"
proof -
  have "bytesToHex (b # bs) = toUpperCase (padStart2 (toString16 b)) @ bytesToHex bs"
    by (simp add: bytesToHex_def toUpperCase_def)
  then show ?thesis by (simp add: byte_hex_digits)
qed

lemma length_bytesToHex: "length (bytesToHex bs) = 2 * length bs"
  by (induction bs) (simp_all add: bytesToHex_Cons)

lemma filter_bytesToHex: "filter isHexChar (bytesToHex bs) = bytesToHex bs"
proof (induction bs)
  case Nil
  then show ?case by simp
next
  case (Cons b bs)
  have "unat b < 256" using unsigned_less [of b] by simp
  then have "unat b div 16 < 16" "unat b mod 16 < 16" by simp_all
  then show ?case using Cons by (simp add: bytesToHex_Cons isHexChar_upper)
qed

lemma parsePairs_bytesToHex: "parsePairs (bytesToHex bs) = bs"
proof (induction bs)
  case Nil
  then show ?case by simp
next
  case (Cons b bs)
  have "unat b < 256" using unsigned_less [of b] by simp
  then have "unat b div 16 < 16" "unat b mod 16 < 16" by simp_all
  then have "parsePairs (bytesToHex (b # bs))
               = of_nat (unat b div 16 * 16 + unat b mod 16) # bs"
    using Cons by (simp add: bytesToHex_Cons hexVal_upper)
  then show ?case by simp
qed

lemma hexToBytes_bytesToHex: "hexToBytes (bytesToHex bs) = Inr bs"
  by (simp add: hexToBytes_def filter_bytesToHex length_bytesToHex parsePairs_bytesToHex)

section \<open>The SDM message\<close>

lemma generateSDM_ok:
  assumes "length (cfg_uid config @ cfg_counter config) = 10"
      and "length (cfg_encKey config) = 16" and "length (cfg_macKey config) = 16"
  obtains ks full where
    "deriveSDMSessionKeys (cfg_encKey config) (cfg_macKey config) None = Inr ks"
    "length (KSesSDMFileEnc ks) = 16" "length (KSesSDMFileReadMAC ks) = 16"
    "cmac (KSesSDMFileReadMAC ks) (cfg_uid config @ cfg_counter config) = Inr full"
    "length full = 16"
    "generateSDM config
       = Inr \<lparr>encPiccData = bytesToHex (cryptojs_ctr (KSesSDMFileEnc ks) (replicate 16 0)
                                         (cfg_uid config @ cfg_counter config)),
              cmacHex = bytesToHex (take 8 full),
              piccData = cfg_uid config @ cfg_counter config\<rparr>"
proof -
  let ?p = "cfg_uid config @ cfg_counter config"
  from deriveSDMSessionKeys_ok [OF assms(2,3), of "replicate 16 0"]
  obtain enc mac where
    ks: "deriveSDMSessionKeys (cfg_encKey config) (cfg_macKey config) None
           = Inr \<lparr>KSesSDMFileReadMAC = mac, KSesSDMFileEnc = enc\<rparr>"
    and len: "length enc = 16" "length mac = 16"
    by (auto simp: deriveSDMSessionKeys_default)
  from cmac_ok [OF len(2), of ?p] obtain full where
    full: "cmac mac ?p = Inr full" "length full = 16" by blast
  have ctr: "aesEncryptCTR enc (replicate 16 0) ?p = Inr (cryptojs_ctr enc (replicate 16 0) ?p)"
    using len(1) by (simp add: aesEncryptCTR_ok)
  have "generateSDM config
          = Inr \<lparr>encPiccData = bytesToHex (cryptojs_ctr enc (replicate 16 0) ?p),
                 cmacHex = bytesToHex (take 8 full), piccData = ?p\<rparr>"
    unfolding generateSDM_def Let_def using assms(1) ks ctr full
    by (simp add: cmacSDM_def slice_def)
  with ks len full show ?thesis by (intro that [of "\<lparr>KSesSDMFileReadMAC = mac, KSesSDMFileEnc = enc\<rparr>" full]) simp_all
qed

text \<open>
  Claim C1. For a 7-byte UID, a 3-byte counter and 16-byte keys K1 and K2 the builder
  returns a message; its \<open>encPiccData\<close> is the hexadecimal form of 10 bytes whose AES-CTR
  decryption under the session key \<open>KSesSDMFileEnc\<close> with the zero IV is UID followed by the
  counter; and its \<open>cmac\<close> is the hexadecimal form of the first 8 bytes of the CMAC under
  \<open>KSesSDMFileReadMAC\<close> over that plaintext.
\<close>

theorem generateSDM_correct:
  assumes "length (cfg_uid config) = 7" and "length (cfg_counter config) = 3"
      and "length (cfg_encKey config) = 16" and "length (cfg_macKey config) = 16"
  shows "\<exists>ks msg enc full.
           deriveSDMSessionKeys (cfg_encKey config) (cfg_macKey config) None = Inr ks
         \<and> generateSDM config = Inr msg
         \<and> hexToBytes (encPiccData msg) = Inr enc
         \<and> length enc = 10
         \<and> aesDecryptCTR (KSesSDMFileEnc ks) (replicate 16 0) enc
             = Inr (cfg_uid config @ cfg_counter config)
         \<and> cmac (KSesSDMFileReadMAC ks) (cfg_uid config @ cfg_counter config) = Inr full
         \<and> hexToBytes (cmacHex msg) = Inr (take 8 full)
         \<and> length (take 8 full) = 8"
proof -
  let ?p = "cfg_uid config @ cfg_counter config"
  have p: "length ?p = 10" using assms(1,2) by simp
  from p assms(3,4) obtain ks full where
    ks: "deriveSDMSessionKeys (cfg_encKey config) (cfg_macKey config) None = Inr ks"
    and len: "length (KSesSDMFileEnc ks) = 16"
    and full: "cmac (KSesSDMFileReadMAC ks) ?p = Inr full" "length full = 16"
    and msg: "generateSDM config
             = Inr \<lparr>encPiccData = bytesToHex (cryptojs_ctr (KSesSDMFileEnc ks) (replicate 16 0) ?p),
                    cmacHex = bytesToHex (take 8 full), piccData = ?p\<rparr>"
    by (rule generateSDM_ok) blast
  let ?enc = "cryptojs_ctr (KSesSDMFileEnc ks) (replicate 16 0) ?p"
  have "length ?enc = 10" using len p by (simp add: length_cryptojs_ctr)
  moreover have "aesDecryptCTR (KSesSDMFileEnc ks) (replicate 16 0) ?enc = Inr ?p"
    using len by (simp add: aesDecryptCTR_def aesEncryptCTR_ok cryptojs_ctr_involution)
  ultimately show ?thesis
    using ks msg full by (simp add: hexToBytes_bytesToHex)
qed

theorem generateSDM_correct_witness:
  "\<exists>ks msg enc full.
     deriveSDMSessionKeys (replicate 16 0) (replicate 16 0) None = Inr ks
   \<and> generateSDM \<lparr>cfg_piccData = [], cfg_encKey = replicate 16 0, cfg_macKey = replicate 16 0,
                   cfg_counter = [0, 0, 1], cfg_uid = [4, 0xAA, 0xBB, 0xCC, 0xDD, 0xEE, 0xFF]\<rparr>
       = Inr msg
   \<and> hexToBytes (encPiccData msg) = Inr enc
   \<and> length enc = 10
   \<and> aesDecryptCTR (KSesSDMFileEnc ks) (replicate 16 0) enc
       = Inr [4, 0xAA, 0xBB, 0xCC, 0xDD, 0xEE, 0xFF, 0, 0, 1]
   \<and> cmac (KSesSDMFileReadMAC ks) [4, 0xAA, 0xBB, 0xCC, 0xDD, 0xEE, 0xFF, 0, 0, 1] = Inr full
   \<and> hexToBytes (cmacHex msg) = Inr (take 8 full)
   \<and> length (take 8 full) = 8"
  using generateSDM_correct [of "\<lparr>cfg_piccData = [], cfg_encKey = replicate 16 0,
      cfg_macKey = replicate 16 0, cfg_counter = [0, 0, 1],
      cfg_uid = [4, 0xAA, 0xBB, 0xCC, 0xDD, 0xEE, 0xFF]\<rparr>"]
  by simp

section \<open>The NDEF message\<close>

lemma buildNDEFMessage_shape:
  "buildNDEFMessage url =
     [0x03, of_nat (length (uriRest url) + 5), 0xD1, 0x01, of_nat (length (uriRest url) + 1), 0x55, 0x04]
       @ encode (uriRest url) @ [0xFE]"
  by (simp add: buildNDEFMessage_def uriRest_def Let_def encode_def)

lemma uriRest_https: "uriRest (''https://'' @ rest) = rest"
  by (simp add: uriRest_def replace_prefix_def)

lemma uriRest_lnurlw: "uriRest (''lnurlw://'' @ rest) = rest"
  by (simp add: uriRest_def replace_prefix_def)

text \<open>
  Claim C8, as amended. If the URL begins with \<open>https://\<close>, or with \<open>lnurlw://\<close> (which the
  builder first rewrites to \<open>https://\<close>), the URI identifier byte of the record is \<open>0x04\<close>
  and the rest of the payload is the URL with that scheme prefix removed.
\<close>

theorem uri_record_identifier:
  "buildNDEFMessage (''https://'' @ rest) =
     [0x03, of_nat (length rest + 5), 0xD1, 0x01, of_nat (length rest + 1), 0x55, 0x04]
       @ encode rest @ [0xFE]
   \<and> buildNDEFMessage (''lnurlw://'' @ rest) =
     [0x03, of_nat (length rest + 5), 0xD1, 0x01, of_nat (length rest + 1), 0x55, 0x04]
       @ encode rest @ [0xFE]"
  unfolding buildNDEFMessage_shape uriRest_https uriRest_lnurlw by simp

text \<open>
  The claim as it was stated fails: the URL \<open>lnurlw://a\<close> does not begin with \<open>https://\<close>,
  and its record has the identifier byte \<open>0x04\<close> and the rest \<open>a\<close>, not the identifier
  \<open>0x00\<close> and the whole URL.
\<close>

theorem uri_record_identifier_counterexample:
  "\<not> prefix ''https://'' ''lnurlw://a''
   \<and> buildNDEFMessage ''lnurlw://a'' = [0x03, 0x06, 0xD1, 0x01, 0x02, 0x55, 0x04, 0x61, 0xFE]
   \<and> buildNDEFMessage ''lnurlw://a'' \<noteq>
       [0x03, 0x0F, 0xD1, 0x01, 0x0B, 0x55, 0x00] @ encode ''lnurlw://a'' @ [0xFE]"
  by (simp add: buildNDEFMessage_def replace_prefix_def encode_def)

lemma byte_of_small: "n < 256 \<Longrightarrow> unat (of_nat n :: byte) = n"
  by (simp add: unat_of_nat)

lemma generateNDEFWithSDM_ok:
  assumes "length uid = 7" and "length ctr = 3" and "length k1 = 16" and "length k2 = 16"
  shows "\<exists>p c. length p = 20 \<and> length c = 16
           \<and> generateNDEFWithSDM uid ctr k1 k2 base cid
               = Inr (buildNDEFMessage
                        ((if base \<noteq> [] \<and> last base = CHR ''/'' then butlast base else base)
                           @ ''/'' @ cid @ ''?p='' @ p @ ''&c='' @ c))"
proof -
  let ?cfg = "\<lparr>cfg_piccData = uid @ ctr, cfg_encKey = k1, cfg_macKey = k2,
               cfg_counter = ctr, cfg_uid = uid\<rparr>"
  have a: "length (cfg_uid ?cfg @ cfg_counter ?cfg) = 10" using assms by simp
  have b: "length (cfg_encKey ?cfg) = 16" and c: "length (cfg_macKey ?cfg) = 16"
    using assms by simp_all
  from a b c obtain ks :: SDMSessionKeys and full where
    len: "length (KSesSDMFileEnc ks) = 16" "length full = 16"
    and msg0: "generateSDM ?cfg
             = Inr \<lparr>encPiccData = bytesToHex (cryptojs_ctr (KSesSDMFileEnc ks) (replicate 16 0)
                                               (cfg_uid ?cfg @ cfg_counter ?cfg)),
                    cmacHex = bytesToHex (take 8 full),
                    piccData = cfg_uid ?cfg @ cfg_counter ?cfg\<rparr>"
    by (rule generateSDM_ok) blast
  from msg0 have msg: "generateSDM ?cfg
             = Inr \<lparr>encPiccData = bytesToHex (cryptojs_ctr (KSesSDMFileEnc ks) (replicate 16 0)
                                               (uid @ ctr)),
                    cmacHex = bytesToHex (take 8 full),
                    piccData = uid @ ctr\<rparr>"
    by simp
  let ?p = "bytesToHex (cryptojs_ctr (KSesSDMFileEnc ks) (replicate 16 0) (uid @ ctr))"
  let ?c = "bytesToHex (take 8 full)"
  have "length ?p = 20" using len assms by (simp add: length_bytesToHex length_cryptojs_ctr)
  moreover have "length ?c = 16" using len by (simp add: length_bytesToHex)
  moreover have "generateNDEFWithSDM uid ctr k1 k2 base cid
               = Inr (buildNDEFMessage
                        ((if base \<noteq> [] \<and> last base = CHR ''/'' then butlast base else base)
                           @ ''/'' @ cid @ ''?p='' @ ?p @ ''&c='' @ ?c))"
    using msg by (simp add: generateNDEFWithSDM_def buildLNURL_def)
  ultimately show ?thesis by blast
qed

text \<open>
  Claim C9, as amended. For a 7-byte UID, a 3-byte counter and 16-byte keys the builder
  returns an NDEF message whatever the length of the cardId: it neither shortens the cardId
  nor fails. The length of the NDEF TLV and the payload length of the record are always
  written as one byte each, never in the 3-byte form, and both bytes are the true lengths
  whenever the URI rest has at most 249 bytes, that is, whenever the record has at most
  254 bytes.
\<close>

theorem ndef_length_fields:
  assumes "length uid = 7" and "length ctr = 3" and "length k1 = 16" and "length k2 = 16"
  shows "\<exists>p c rest. length p = 20 \<and> length c = 16
           \<and> rest = uriRest ((if base \<noteq> [] \<and> last base = CHR ''/'' then butlast base else base)
                               @ ''/'' @ cid @ ''?p='' @ p @ ''&c='' @ c)
           \<and> generateNDEFWithSDM uid ctr k1 k2 base cid
               = Inr ([0x03, of_nat (length rest + 5), 0xD1, 0x01, of_nat (length rest + 1), 0x55, 0x04]
                        @ encode rest @ [0xFE])
           \<and> (length rest \<le> 249 \<longrightarrow>
                 unat (of_nat (length rest + 5) :: byte) = length rest + 5
               \<and> unat (of_nat (length rest + 1) :: byte) = length rest + 1)"
proof -
  from generateNDEFWithSDM_ok [OF assms, of base cid] obtain p c where
    pc: "length p = 20" "length c = 16"
    and g: "generateNDEFWithSDM uid ctr k1 k2 base cid
               = Inr (buildNDEFMessage
                        ((if base \<noteq> [] \<and> last base = CHR ''/'' then butlast base else base)
                           @ ''/'' @ cid @ ''?p='' @ p @ ''&c='' @ c))"
    by blast
  let ?rest = "uriRest ((if base \<noteq> [] \<and> last base = CHR ''/'' then butlast base else base)
                               @ ''/'' @ cid @ ''?p='' @ p @ ''&c='' @ c)"
  have "length ?rest \<le> 249 \<longrightarrow>
          unat (of_nat (length ?rest + 5) :: byte) = length ?rest + 5
        \<and> unat (of_nat (length ?rest + 1) :: byte) = length ?rest + 1"
    by (intro impI conjI byte_of_small) simp_all
  with pc g show ?thesis unfolding buildNDEFMessage_shape by blast
qed

theorem ndef_length_fields_witness:
  "\<exists>p c rest. length p = 20 \<and> length c = 16
     \<and> rest = uriRest (''https://a/b'' @ ''/'' @ ''c'' @ ''?p='' @ p @ ''&c='' @ c)
     \<and> generateNDEFWithSDM [4, 1, 2, 3, 4, 5, 6] [0, 0, 0] (replicate 16 0) (replicate 16 0)
           ''https://a/b/'' ''c''
         = Inr ([0x03, of_nat (length rest + 5), 0xD1, 0x01, of_nat (length rest + 1), 0x55, 0x04]
                  @ encode rest @ [0xFE])
     \<and> (length rest \<le> 249 \<longrightarrow>
           unat (of_nat (length rest + 5) :: byte) = length rest + 5
         \<and> unat (of_nat (length rest + 1) :: byte) = length rest + 1)"
  using ndef_length_fields [of "[4, 1, 2, 3, 4, 5, 6]" "[0, 0, 0]" "replicate 16 0" "replicate 16 0"
          "''https://a/b/''" "''c''"]
  by simp

text \<open>
  The claim as it was stated fails: with a cardId of 300 characters the builder returns a
  message of 352 bytes that holds the whole cardId, and the byte written as the length of
  the 349-byte record is \<open>0x5D\<close>.
\<close>

theorem ndef_length_fields_counterexample:
  "\<not> isl (generateNDEFWithSDM [4, 1, 2, 3, 4, 5, 6] [0, 0, 0] (replicate 16 0) (replicate 16 0)
            ''https://a'' (replicate 300 CHR ''x''))
   \<and> length (projr (generateNDEFWithSDM [4, 1, 2, 3, 4, 5, 6] [0, 0, 0] (replicate 16 0)
                       (replicate 16 0) ''https://a'' (replicate 300 CHR ''x''))) = 352
   \<and> projr (generateNDEFWithSDM [4, 1, 2, 3, 4, 5, 6] [0, 0, 0] (replicate 16 0)
               (replicate 16 0) ''https://a'' (replicate 300 CHR ''x'')) ! 1 = 0x5D
   \<and> take 300 (drop 9 (projr (generateNDEFWithSDM [4, 1, 2, 3, 4, 5, 6] [0, 0, 0] (replicate 16 0)
                                (replicate 16 0) ''https://a'' (replicate 300 CHR ''x''))))
       = encode (replicate 300 CHR ''x'')"
proof -
  let ?g = "generateNDEFWithSDM [4, 1, 2, 3, 4, 5, 6] [0, 0, 0] (replicate 16 0) (replicate 16 0)
              ''https://a'' (replicate 300 CHR ''x'')"
  obtain p c where pc: "length p = 20" "length c = 16"
    and g: "?g = Inr (buildNDEFMessage (''https://'' @ (''a/'' @ replicate 300 CHR ''x'' @ ''?p='' @ p @ ''&c='' @ c)))"
    using generateNDEFWithSDM_ok [of "[4, 1, 2, 3, 4, 5, 6]" "[0, 0, 0]" "replicate 16 0"
            "replicate 16 0" "''https://a''" "replicate 300 CHR ''x''"]
    by auto
  let ?rest = "''a/'' @ replicate 300 CHR ''x'' @ ''?p='' @ p @ ''&c='' @ c"
  have len: "length ?rest = 344" using pc by simp
  have msg: "projr ?g = [0x03, of_nat (length ?rest + 5), 0xD1, 0x01, of_nat (length ?rest + 1), 0x55, 0x04]
               @ encode ?rest @ [0xFE]"
    unfolding g buildNDEFMessage_shape uriRest_https by simp
  have "\<not> isl ?g" unfolding g by simp
  moreover have "length (projr ?g) = 352" unfolding msg using len by (simp add: encode_def)
  moreover have "projr ?g ! 1 = 0x5D" unfolding msg len by simp
  moreover have "take 300 (drop 9 (projr ?g)) = encode (replicate 300 CHR ''x'')"
    unfolding msg by (simp add: encode_def)
  ultimately show ?thesis by blast
qed

section \<open>The counter\<close>

lemma be_nat_append: "be_nat (xs @ ys) = be_nat xs * 256 ^ length ys + be_nat ys"
  by (induction xs) (simp_all add: power_add algebra_simps)

lemma be_nat_snoc: "be_nat (xs @ [x]) = 256 * be_nat xs + unat x"
  by (simp add: be_nat_append)

lemma be_nat_less: "be_nat xs < 256 ^ length xs"
proof (induction xs rule: rev_induct)
  case Nil
  then show ?case by simp
next
  case (snoc x xs)
  have "unat x < 256" using unsigned_less [of x] by simp
  with snoc show ?case by (simp add: be_nat_snoc)
qed

lemma length_nat_to_be [simp]: "length (nat_to_be k n) = k"
  by (induction k arbitrary: n) simp_all

lemma byte_of_nat_low: "(of_nat (256 * a + b) :: byte) = of_nat b"
proof -
  have "(of_nat (256 * a + b) :: byte) = of_nat 256 * of_nat a + of_nat b" by simp
  also have "(of_nat 256 :: byte) = 0" by simp
  finally show ?thesis by simp
qed

lemma nat_to_be_be_nat: "nat_to_be (length xs) (be_nat xs) = xs"
proof (induction xs rule: rev_induct)
  case Nil
  then show ?case by simp
next
  case (snoc x xs)
  have u: "unat x < 256" using unsigned_less [of x] by simp
  then have d: "(256 * be_nat xs + unat x) div 256 = be_nat xs" by simp
  have "nat_to_be (length (xs @ [x])) (be_nat (xs @ [x]))
          = nat_to_be (Suc (length xs)) (256 * be_nat xs + unat x)"
    by (simp add: be_nat_snoc)
  also have "\<dots> = nat_to_be (length xs) ((256 * be_nat xs + unat x) div 256)
                      @ [of_nat (256 * be_nat xs + unat x)]"
    by (rule nat_to_be.simps)
  also have "\<dots> = nat_to_be (length xs) (be_nat xs) @ [of_nat (unat x)]"
    by (simp only: d byte_of_nat_low)
  also have "\<dots> = xs @ [x]" using snoc by simp
  finally show ?case .
qed

lemma be_nat_nat_to_be: "be_nat (nat_to_be k n) = n mod 256 ^ k"
proof (induction k arbitrary: n)
  case 0
  then show ?case by simp
next
  case (Suc k)
  have "unat (of_nat n :: byte) = n mod 256" by (simp add: unat_of_nat)
  with Suc show ?case
    by (simp add: be_nat_snoc mod_mult2_eq)
qed

lemma length_incrementCounter_loop [simp]:
  "length (incrementCounter_loop k r) = length r"
  by (induction k arbitrary: r) simp_all

lemma incrementCounter_loop_drop:
  "k \<le> length r \<Longrightarrow> drop k (incrementCounter_loop k r) = drop k r"
proof (induction k arbitrary: r)
  case 0
  then show ?case by simp
next
  case (Suc i)
  show ?case
  proof (cases "r ! i = 0xFF")
    case True
    from Suc.prems have "i \<le> length (r[i := 0])" by simp
    from Suc.IH [OF this] have "drop i (incrementCounter_loop i (r[i := 0])) = drop i (r[i := 0])" .
    then have "drop (Suc i) (incrementCounter_loop i (r[i := 0])) = drop (Suc i) (r[i := 0])"
      by (metis drop_drop plus_1_eq_Suc)
    with True show ?thesis by simp
  next
    case False
    then show ?thesis by simp
  qed
qed

lemma incrementCounter_loop_value:
  "k \<le> length r \<Longrightarrow>
     be_nat (take k (incrementCounter_loop k r)) = (be_nat (take k r) + 1) mod 256 ^ k"
proof (induction k arbitrary: r)
  case 0
  then show ?case by simp
next
  case (Suc i)
  from Suc.prems have i: "i < length r" by simp
  have tk: "take (Suc i) r = take i r @ [r ! i]" using i by (simp add: take_Suc_conv_app_nth)
  show ?case
  proof (cases "r ! i = 0xFF")
    case True
    let ?r' = "r[i := 0]"
    let ?res = "incrementCounter_loop i ?r'"
    have il: "i \<le> length ?r'" using i by simp
    have v: "be_nat (take i ?res) = (be_nat (take i r) + 1) mod 256 ^ i"
      using Suc.IH [OF il] by simp
    have "drop i ?res = drop i ?r'" using il by (rule incrementCounter_loop_drop)
    then have "?res ! i = ?r' ! i"
      using i by (metis Cons_nth_drop_Suc length_incrementCounter_loop length_list_update nth_via_drop)
    then have ri: "?res ! i = 0" using i by simp
    have "take (Suc i) ?res = take i ?res @ [0]"
      using i ri by (simp add: take_Suc_conv_app_nth)
    then have "be_nat (take (Suc i) ?res) = 256 * ((be_nat (take i r) + 1) mod 256 ^ i)"
      using v by (simp add: be_nat_snoc)
    also have "\<dots> = (256 * (be_nat (take i r) + 1)) mod (256 * 256 ^ i)"
      by (simp add: mult_mod_right)
    also have "256 * (be_nat (take i r) + 1) = be_nat (take (Suc i) r) + 1"
      using True by (simp add: tk be_nat_snoc)
    finally show ?thesis using True by simp
  next
    case False
    have "unat (r ! i) \<noteq> 255"
    proof
      assume "unat (r ! i) = 255"
      then have "of_nat (unat (r ! i)) = (of_nat 255 :: byte)" by simp
      then have "r ! i = 0xFF" by simp
      with False show False by simp
    qed
    moreover have "unat (r ! i) < 256" using unsigned_less [of "r ! i"] by simp
    ultimately have lt: "unat (r ! i) + 1 < 256" by simp
    then have u: "unat (r ! i + 1) = unat (r ! i) + 1"
      by (simp add: unat_word_ariths)
    have "take (Suc i) (r[i := r ! i + 1]) = take i r @ [r ! i + 1]"
      using i by (simp add: take_Suc_conv_app_nth)
    then have "be_nat (take (Suc i) (r[i := r ! i + 1])) = be_nat (take (Suc i) r) + 1"
      using u by (simp add: tk be_nat_snoc)
    moreover have "be_nat (take (Suc i) r) + 1 < 256 ^ Suc i"
    proof -
      have "be_nat (take i r) < 256 ^ i" using be_nat_less [of "take i r"] i by simp
      then have "256 * be_nat (take i r) + 256 \<le> 256 * 256 ^ i" by simp
      with lt show ?thesis by (simp add: tk be_nat_snoc)
    qed
    ultimately show ?thesis using False by simp
  qed
qed

lemma length_incrementCounter [simp]: "length (incrementCounter c) = length c"
  by (simp add: incrementCounter_def)

lemma be_nat_incrementCounter:
  "be_nat (incrementCounter c) = (be_nat c + 1) mod 256 ^ length c"
  using incrementCounter_loop_value [of "length c" c] by (simp add: incrementCounter_def)

lemma incrementCounter_eq:
  "incrementCounter c = nat_to_be (length c) ((be_nat c + 1) mod 256 ^ length c)"
  using nat_to_be_be_nat [of "incrementCounter c"] by (simp add: be_nat_incrementCounter)

section \<open>READ BINARY on the NDEF file\<close>

lemma success_bytes:
  "serializeResponse (buildSuccessResponse (Some d)) = d @ [0x90, 0x00]"
  by (simp add: serializeResponse_def buildSuccessResponse_def SW_SUCCESS_def Let_def)

lemma unknown_error_bytes:
  "serializeResponse (buildErrorResponse SW_UNKNOWN_ERROR) = [0x6F, 0x00]"
  by (simp add: serializeResponse_def buildErrorResponse_def SW_UNKNOWN_ERROR_def)

lemma read_offset_zero_iff:
  "push_bit 8 (unat p1) OR unat p2 = 0 \<longleftrightarrow> p1 = 0 \<and> p2 = 0"
  for p1 p2 :: byte
  by (auto simp: or_eq_0_iff push_bit_eq_mult unat_eq_zero)

lemma processAPDU_read:
  assumes "parseAPDU c = Inr command" and "isReadBinaryCommand command"
  shows "processAPDU this c =
           (case handleReadCommand this command of
              (this', Inl e) \<Rightarrow> (this', [0x6F, 0x00])
            | (this', Inr response) \<Rightarrow> (this', serializeResponse response))"
proof -
  from assms(2) have "\<not> isSelectCommand command"
    by (simp add: isReadBinaryCommand_def isSelectCommand_def)
  with assms show ?thesis
    by (simp add: processAPDU_def unknown_error_bytes split: prod.splits sum.splits)
qed

lemma handleReadNDEF_bytes:
  "handleReadNDEF offset len g s =
     (case g s of
        Inl e \<Rightarrow> Inl e
      | Inr ndef \<Rightarrow> Inr (buildSuccessResponse (Some (slice offset (offset + len) ndef))))"
  by (auto simp: handleReadNDEF_def slice_def Let_def min_def split: sum.splits)

lemma processAPDU_read_ndef:
  assumes "parseAPDU c = Inr command" and "isReadBinaryCommand command"
      and "selectedFileId (state this) = Some FILE_ID_NDEF"
  shows "processAPDU this c =
           (let offset = push_bit 8 (unat (P1 command)) OR unat (P2 command);
                this' = (if offset = 0 then handleCounterIncrement this else this)
            in (this', case generateNDEFData this' of
                         Inl e \<Rightarrow> [0x6F, 0x00]
                       | Inr ndef \<Rightarrow> slice offset (offset + requestedLength c) ndef @ [0x90, 0x00]))"
proof -
  have ro: "getReadOffset command = Inr (push_bit 8 (unat (P1 command)) OR unat (P2 command))"
    using assms(2) by (simp add: getReadOffset_def)
  obtain len where rl: "getReadLength command = Inr len"
    using assms(2) by (simp add: getReadLength_def)
  then have len: "requestedLength c = len" using assms(1) by (simp add: requestedLength_def)
  have ne: "FILE_ID_NDEF \<noteq> FILE_ID_CC" by (simp add: FILE_ID_NDEF_def FILE_ID_CC_def)
  show ?thesis
    unfolding processAPDU_read [OF assms(1,2)] handleReadCommand_def handleReadBinary_def
      assms(3) ro rl len [symmetric] handleReadNDEF_bytes
    using ne by (simp add: Let_def success_bytes split: sum.splits)
qed

lemma generateNDEFData_increment:
  assumes "validService this"
  shows "generateNDEFData (handleCounterIncrement this)
           = ndefWithCounter this (be_nat (counter (state this)) + 1)"
proof -
  from assms have "length (counter (state this)) = 3" by (simp add: validService_def)
  then have "incrementCounter (counter (state this))
               = nat_to_be 3 ((be_nat (counter (state this)) + 1) mod 2 ^ 24)"
    using incrementCounter_eq [of "counter (state this)"] by simp
  then show ?thesis
    by (simp add: generateNDEFData_def handleCounterIncrement_def ndefWithCounter_def)
qed

lemma ndefWithCounter_ok:
  assumes "validService this"
  shows "\<exists>ndef. ndefWithCounter this n = Inr ndef"
proof -
  from assms have "length (keyUID (keys this)) = 7" "length (nat_to_be 3 (n mod 2 ^ 24)) = 3"
    "length (keyK1 (keys this)) = 16" "length (keyK2 (keys this)) = 16"
    by (simp_all add: validService_def)
  from generateNDEFWithSDM_ok [OF this] show ?thesis
    unfolding ndefWithCounter_def by blast
qed

lemma read_at_zero:
  assumes "validService this" and "selectedFileId (state this) = Some FILE_ID_NDEF"
      and "readBinaryAtZero c"
  shows "fst (processAPDU this c) = handleCounterIncrement this"
    and "Some (snd (processAPDU this c)) = readResponse this (be_nat (counter (state this)) + 1) c"
proof -
  from assms(3) obtain command where
    p: "parseAPDU c = Inr command" and r: "isReadBinaryCommand command"
    and z: "P1 command = 0" "P2 command = 0"
    by (auto simp: readBinaryAtZero_def split: sum.splits)
  obtain ndef where n: "ndefWithCounter this (be_nat (counter (state this)) + 1) = Inr ndef"
    using ndefWithCounter_ok [OF assms(1)] by blast
  have eq: "processAPDU this c =
          (handleCounterIncrement this, take (requestedLength c) ndef @ [0x90, 0x00])"
    unfolding processAPDU_read_ndef [OF p r assms(2)]
    using z n by (simp add: generateNDEFData_increment [OF assms(1)] slice_def)
  show "fst (processAPDU this c) = handleCounterIncrement this" by (simp add: eq)
  show "Some (snd (processAPDU this c)) = readResponse this (be_nat (counter (state this)) + 1) c"
    using n by (simp add: eq readResponse_def)
qed

lemma handleCounterIncrement_frame:
  "keys (handleCounterIncrement this) = keys this"
  "lnurlBase (handleCounterIncrement this) = lnurlBase this"
  "cardId (handleCounterIncrement this) = cardId this"
  "selectedFileId (state (handleCounterIncrement this)) = selectedFileId (state this)"
  "counter (state (handleCounterIncrement this)) = incrementCounter (counter (state this))"
  by (simp_all add: handleCounterIncrement_def)

lemma validService_increment:
  "validService this \<Longrightarrow> validService (handleCounterIncrement this)"
  by (simp add: validService_def handleCounterIncrement_frame)

lemma be_nat_counter_increment:
  "validService this \<Longrightarrow>
     be_nat (counter (state (handleCounterIncrement this)))
       = (be_nat (counter (state this)) + 1) mod 2 ^ 24"
  by (simp add: validService_def handleCounterIncrement_frame be_nat_incrementCounter)

lemma ndefWithCounter_mod: "ndefWithCounter this (n mod 2 ^ 24 + m) = ndefWithCounter this (n + m)"
  by (simp add: ndefWithCounter_def mod_add_left_eq)

lemma readResponse_mod: "readResponse this (n mod 2 ^ 24 + m) c = readResponse this (n + m) c"
  by (simp only: readResponse_def ndefWithCounter_mod)

lemma readResponse_increment:
  "readResponse (handleCounterIncrement this) n c = readResponse this n c"
  by (simp add: readResponse_def ndefWithCounter_def handleCounterIncrement_frame)

lemma successive_reads_aux:
  assumes "\<forall>c \<in> set cs. readBinaryAtZero c"
  shows "validService this \<Longrightarrow> selectedFileId (state this) = Some FILE_ID_NDEF \<Longrightarrow>
         length (snd (processAll this cs)) = length cs
       \<and> (\<forall>i < length cs. Some (snd (processAll this cs) ! i)
                              = readResponse this (be_nat (counter (state this)) + i + 1) (cs ! i))
       \<and> validService (fst (processAll this cs))
       \<and> be_nat (counter (state (fst (processAll this cs))))
           = (be_nat (counter (state this)) + length cs) mod 2 ^ 24"
  using assms
proof (induction cs arbitrary: this)
  case Nil
  then have "length (counter (state this)) = 3" by (simp add: validService_def)
  then have "be_nat (counter (state this)) < 2 ^ 24"
    using be_nat_less [of "counter (state this)"] by simp
  with Nil show ?case by simp
next
  case (Cons c cs)
  let ?n = "be_nat (counter (state this))"
  let ?this' = "handleCounterIncrement this"
  from Cons.prems have z: "readBinaryAtZero c" and rest: "\<forall>c \<in> set cs. readBinaryAtZero c"
    by simp_all
  have f: "fst (processAPDU this c) = ?this'"
    and r: "Some (snd (processAPDU this c)) = readResponse this (?n + 1) c"
    using read_at_zero [OF Cons.prems(1,2) z] by simp_all
  have v': "validService ?this'" using Cons.prems(1) by (rule validService_increment)
  have s': "selectedFileId (state ?this') = Some FILE_ID_NDEF"
    using Cons.prems(2) by (simp add: handleCounterIncrement_frame)
  have n': "be_nat (counter (state ?this')) = (?n + 1) mod 2 ^ 24"
    using Cons.prems(1) by (rule be_nat_counter_increment)
  note ih = Cons.IH [OF v' s' rest]
  have pa: "processAll this (c # cs)
              = (fst (processAll ?this' cs), snd (processAPDU this c) # snd (processAll ?this' cs))"
    using f by (auto split: prod.splits)
  have len: "length (snd (processAll this (c # cs))) = length (c # cs)"
    unfolding pa using ih by simp
  have idx: "\<forall>i < length (c # cs). Some (snd (processAll this (c # cs)) ! i)
                = readResponse this (?n + i + 1) ((c # cs) ! i)"
  proof (intro allI impI)
    fix i assume i: "i < length (c # cs)"
    show "Some (snd (processAll this (c # cs)) ! i) = readResponse this (?n + i + 1) ((c # cs) ! i)"
    proof (cases i)
      case 0
      with r show ?thesis unfolding pa by simp
    next
      case (Suc j)
      with i have j: "j < length cs" by simp
      with ih have "Some (snd (processAll ?this' cs) ! j)
                      = readResponse ?this' ((?n + 1) mod 2 ^ 24 + (j + 1)) (cs ! j)"
        by (simp add: n' add.assoc)
      also have "\<dots> = readResponse this (?n + 1 + (j + 1)) (cs ! j)"
        by (simp only: readResponse_increment readResponse_mod)
      finally show ?thesis unfolding pa using Suc by (simp add: add.assoc)
    qed
  qed
  have fin: "be_nat (counter (state (fst (processAll this (c # cs)))))
               = (?n + length (c # cs)) mod 2 ^ 24"
    unfolding pa using ih by (simp add: n' mod_add_left_eq add.assoc)
  from ih have "validService (fst (processAll this (c # cs)))" unfolding pa by simp
  with len idx fin show ?case by blast
qed

text \<open>
  Claim C2. For a tag with key material of the fixed sizes and the NDEF file selected, any
  sequence of READ BINARY commands at offset 0 gives one response per command, and response
  number \<open>i\<close> (from 0) is the requested part of the NDEF file built for the counter value
  \<open>n + i + 1\<close> modulo \<open>2^24\<close>, followed by \<open>9000\<close>, where \<open>n\<close> is the counter before the
  first read: the counter is incremented by one before each NDEF is generated, and after
  the sequence it is \<open>n\<close> plus the number of reads, modulo \<open>2^24\<close>.
\<close>

theorem successive_reads:
  assumes "validService this" and "selectedFileId (state this) = Some FILE_ID_NDEF"
      and "\<forall>c \<in> set cs. readBinaryAtZero c"
  shows "length (snd (processAll this cs)) = length cs
       \<and> (\<forall>i < length cs. Some (snd (processAll this cs) ! i)
                              = readResponse this (be_nat (counter (state this)) + i + 1) (cs ! i))
       \<and> counter (state (fst (processAll this cs)))
           = nat_to_be 3 ((be_nat (counter (state this)) + length cs) mod 2 ^ 24)"
proof -
  note a = successive_reads_aux [OF assms(3,1,2)]
  then have "validService (fst (processAll this cs))" by simp
  then have "length (counter (state (fst (processAll this cs)))) = 3"
    by (simp add: validService_def)
  then have "counter (state (fst (processAll this cs)))
               = nat_to_be 3 (be_nat (counter (state (fst (processAll this cs)))))"
    using nat_to_be_be_nat [of "counter (state (fst (processAll this cs)))"] by simp
  with a show ?thesis by simp
qed

lemma numberToBytes_3:
  "numberToBytes n 3 =
     [of_int (drop_bit 16 n AND 0xFF), of_int (drop_bit 8 n AND 0xFF), of_int (n AND 0xFF)]"
  by (simp add: numberToBytes_def numeral_3_eq_3 drop_bit_drop_bit)

lemma select_aid_step:
  "processAPDU this SELECT_AID = (this, [0x90, 0x00])"
  by (simp add: processAPDU_def SELECT_AID_def parseAPDU_def Let_def slice_def isSelectCommand_def
        handleSelectCommand_def handleSelect_def getSelectAID_def isSelectByAID_def
        handleSelectByAID_def bytesEqual_def NTAG424_AID_def buildSuccessResponse_def
        serializeResponse_def SW_SUCCESS_def)

lemma select_ndef_step:
  "processAPDU this SELECT_NDEF
     = (this\<lparr>state := (state this)\<lparr>selectedFileId := Some FILE_ID_NDEF\<rparr>\<rparr>, [0x90, 0x00])"
  by (simp add: processAPDU_def SELECT_NDEF_def parseAPDU_def Let_def slice_def isSelectCommand_def
        handleSelectCommand_def handleSelect_def getSelectAID_def isSelectByAID_def
        getSelectFileID_def isSelectByFileID_def handleSelectByFileID_def
        FILE_ID_CC_def FILE_ID_NDEF_def FILE_ID_PROPRIETARY_def buildSuccessResponse_def
        serializeResponse_def SW_SUCCESS_def)

lemma scenarioTag_eq:
  "scenarioTag n fails =
     \<lparr>state = \<lparr>selectedFileId = Some FILE_ID_NDEF, authenticated = False,
                counter = numberToBytes n 3\<rparr>,
      keys = scenarioKeys, lnurlBase = ''https://lnbits.com/boltcards/api/v1/scan'',
      cardId = ''card1'', storage = scenarioStore n fails\<rparr>"
  by (simp add: scenarioTag_def select_aid_step select_ndef_step newNTAG424Service_def)

lemma scenarioTag_valid: "validService (scenarioTag n fails)"
  by (simp add: scenarioTag_eq validService_def scenarioKeys_def numberToBytes_3)

lemma scenarioTag_selected: "selectedFileId (state (scenarioTag n fails)) = Some FILE_ID_NDEF"
  by (simp add: scenarioTag_eq)

lemma READ_NDEF_at_zero: "readBinaryAtZero READ_NDEF"
  by (simp add: readBinaryAtZero_def READ_NDEF_def parseAPDU_def isReadBinaryCommand_def)

lemma scenarioTag_counter_0: "counter (state (scenarioTag 0 fails)) = [0, 0, 0]"
  by (simp add: scenarioTag_eq numberToBytes_3)

theorem successive_reads_witness:
  "validService (scenarioTag 0 False)
   \<and> selectedFileId (state (scenarioTag 0 False)) = Some FILE_ID_NDEF
   \<and> readBinaryAtZero READ_NDEF
   \<and> length (snd (processAll (scenarioTag 0 False) [READ_NDEF, READ_NDEF])) = 2
   \<and> Some (snd (processAll (scenarioTag 0 False) [READ_NDEF, READ_NDEF]) ! 0)
       = readResponse (scenarioTag 0 False) 1 READ_NDEF
   \<and> Some (snd (processAll (scenarioTag 0 False) [READ_NDEF, READ_NDEF]) ! 1)
       = readResponse (scenarioTag 0 False) 2 READ_NDEF
   \<and> counter (state (fst (processAll (scenarioTag 0 False) [READ_NDEF, READ_NDEF]))) = [0, 0, 2]"
proof -
  have h: "\<forall>c \<in> set [READ_NDEF, READ_NDEF]. readBinaryAtZero c"
    by (simp add: READ_NDEF_at_zero)
  have n: "nat_to_be 3 (Suc (Suc 0)) = [0, 0, 2]" by (simp add: numeral_3_eq_3)
  note sr = successive_reads [OF scenarioTag_valid [of 0 False] scenarioTag_selected h,
                unfolded scenarioTag_counter_0]
  from sr have l: "length (snd (processAll (scenarioTag 0 False) [READ_NDEF, READ_NDEF])) = 2"
    by (simp del: processAll.simps)
  from sr have ix: "\<forall>i<2. Some (snd (processAll (scenarioTag 0 False) [READ_NDEF, READ_NDEF]) ! i)
              = readResponse (scenarioTag 0 False) (i + 1) ([READ_NDEF, READ_NDEF] ! i)"
    by (simp del: processAll.simps)
  from ix [rule_format, of 0] have r0:
    "Some (snd (processAll (scenarioTag 0 False) [READ_NDEF, READ_NDEF]) ! 0)
       = readResponse (scenarioTag 0 False) 1 READ_NDEF"
    by (simp del: processAll.simps)
  from ix [rule_format, of 1] have r1:
    "Some (snd (processAll (scenarioTag 0 False) [READ_NDEF, READ_NDEF]) ! 1)
       = readResponse (scenarioTag 0 False) 2 READ_NDEF"
    by (simp add: numeral_2_eq_2 del: processAll.simps)
  from sr have c:
    "counter (state (fst (processAll (scenarioTag 0 False) [READ_NDEF, READ_NDEF]))) = [0, 0, 2]"
    by (simp add: n del: processAll.simps)
  from scenarioTag_valid [of 0 False] scenarioTag_selected [of 0 False] READ_NDEF_at_zero l r0 r1 c
  show ?thesis by blast
qed

section \<open>Persistence of the counter\<close>

lemma incrementStorageCounter_fails:
  "setItem_fails store \<Longrightarrow> \<exists>e. incrementStorageCounter store = Inl e"
  by (simp add: incrementStorageCounter_def updateConfig_def saveConfig_def Let_def)

lemma incrementStorageCounter_ok:
  "\<not> setItem_fails store \<Longrightarrow>
     \<exists>cfg. incrementStorageCounter store = Inr (getCounter store + 1, store\<lparr>item := Some cfg\<rparr>)
          \<and> app_counter cfg = Some (getCounter store + 1)"
proof -
  assume ok: "\<not> setItem_fails store"
  let ?existing = "case loadConfig store of None \<Rightarrow> emptyConfig | Some c \<Rightarrow> c"
  let ?cfg = "spread (spread DEFAULT_CONFIG ?existing)
                (emptyConfig\<lparr>app_counter := Some (getCounter store + 1)\<rparr>)"
  have "incrementStorageCounter store = Inr (getCounter store + 1, store\<lparr>item := Some ?cfg\<rparr>)"
    using ok
    by (simp add: incrementStorageCounter_def updateConfig_def saveConfig_def Let_def getCounter_def)
  moreover have "app_counter ?cfg = Some (getCounter store + 1)"
    by (simp add: spread_def orElse_def)
  ultimately show ?thesis by blast
qed

lemma storage_after_increment_fails:
  "setItem_fails (storage this) \<Longrightarrow> storage (handleCounterIncrement this) = storage this"
  using incrementStorageCounter_fails [of "storage this"]
  by (auto simp: handleCounterIncrement_def)

lemma storage_after_increment_ok:
  "\<not> setItem_fails (storage this) \<Longrightarrow>
     \<exists>cfg. storage (handleCounterIncrement this) = (storage this)\<lparr>item := Some cfg\<rparr>
          \<and> app_counter cfg = Some (getCounter (storage this) + 1)"
  using incrementStorageCounter_ok [of "storage this"]
  by (auto simp: handleCounterIncrement_def)

lemma readResponse_storage: "readResponse (this\<lparr>storage := store\<rparr>) n c = readResponse this n c"
  by (simp add: readResponse_def ndefWithCounter_def)

lemma readResponse_not_error: "readResponse this n c = Some r \<Longrightarrow> r \<noteq> [0x6F, 0x00]"
  by (auto simp: readResponse_def append_eq_Cons_conv split: sum.splits)

text \<open>
  Claim C3, as amended. On a READ BINARY of the NDEF file at offset 0 the response is the
  requested part of the NDEF file built for the incremented counter, followed by \<open>9000\<close>,
  and it is the same whatever the store does (the persistence of the counter is not waited
  for and its failure is only logged). When the store accepts the write, it then holds the
  stored counter plus one; when the write fails, the store is left as it was and the
  response is still the data with \<open>9000\<close>.
\<close>

theorem read_response_and_persistence:
  assumes "validService this" and "selectedFileId (state this) = Some FILE_ID_NDEF"
      and "readBinaryAtZero c"
  shows "Some (snd (processAPDU this c)) = readResponse this (be_nat (counter (state this)) + 1) c
       \<and> snd (processAPDU (this\<lparr>storage := store\<rparr>) c) = snd (processAPDU this c)
       \<and> (setItem_fails (storage this) \<longrightarrow> storage (fst (processAPDU this c)) = storage this)
       \<and> (\<not> setItem_fails (storage this) \<longrightarrow>
            (\<exists>cfg. storage (fst (processAPDU this c)) = (storage this)\<lparr>item := Some cfg\<rparr>
                 \<and> app_counter cfg = Some (getCounter (storage this) + 1)))"
proof -
  note r = read_at_zero [OF assms]
  have v: "validService (this\<lparr>storage := store\<rparr>)" using assms(1) by (simp add: validService_def)
  have s: "selectedFileId (state (this\<lparr>storage := store\<rparr>)) = Some FILE_ID_NDEF"
    using assms(2) by simp
  from read_at_zero(2) [OF v s assms(3)] r(2)
  have "Some (snd (processAPDU (this\<lparr>storage := store\<rparr>) c)) = Some (snd (processAPDU this c))"
    by (simp add: readResponse_storage)
  then have same: "snd (processAPDU (this\<lparr>storage := store\<rparr>) c) = snd (processAPDU this c)"
    by simp
  from r same show ?thesis
    using storage_after_increment_fails [of this] storage_after_increment_ok [of this]
    by simp
qed

lemma scenarioTag_storage: "storage (scenarioTag n fails) = scenarioStore n fails"
  by (simp add: scenarioTag_eq)

theorem read_response_and_persistence_witness:
  "Some (snd (processAPDU (scenarioTag 0 True) READ_NDEF))
     = readResponse (scenarioTag 0 True) 1 READ_NDEF
   \<and> snd (processAPDU ((scenarioTag 0 True)\<lparr>storage := scenarioStore 0 False\<rparr>) READ_NDEF)
       = snd (processAPDU (scenarioTag 0 True) READ_NDEF)
   \<and> storage (fst (processAPDU (scenarioTag 0 True) READ_NDEF)) = scenarioStore 0 True
   \<and> (\<exists>cfg. storage (fst (processAPDU (scenarioTag 0 False) READ_NDEF))
               = (scenarioStore 0 False)\<lparr>item := Some cfg\<rparr>
            \<and> app_counter cfg = Some 1)"
proof -
  have g: "getCounter (scenarioStore 0 False) = 0"
    by (simp add: getCounter_def scenarioStore_def loadConfig_def counterOrZero_def)
  have f: "setItem_fails (scenarioStore 0 True)" "\<not> setItem_fails (scenarioStore 0 False)"
    by (simp_all add: scenarioStore_def)
  from read_response_and_persistence
         [OF scenarioTag_valid [of 0 True] scenarioTag_selected READ_NDEF_at_zero,
          of "scenarioStore 0 False"]
       read_response_and_persistence
         [OF scenarioTag_valid [of 0 False] scenarioTag_selected READ_NDEF_at_zero,
          of "scenarioStore 0 False"]
  show ?thesis
    unfolding scenarioTag_counter_0 scenarioTag_storage using f g by simp
qed

text \<open>
  The claim as it was stated fails: with a store whose writes fail, the response to the
  read is not \<open>6F00\<close>; it is the NDEF data built for the incremented counter, followed by
  \<open>9000\<close>.
\<close>

theorem read_response_and_persistence_counterexample:
  "setItem_fails (storage (scenarioTag 0 True))
   \<and> snd (processAPDU (scenarioTag 0 True) READ_NDEF) \<noteq> [0x6F, 0x00]
   \<and> Some (snd (processAPDU (scenarioTag 0 True) READ_NDEF))
       = readResponse (scenarioTag 0 True) 1 READ_NDEF"
proof -
  have r: "Some (snd (processAPDU (scenarioTag 0 True) READ_NDEF))
             = readResponse (scenarioTag 0 True) 1 READ_NDEF"
    using read_at_zero(2) [OF scenarioTag_valid [of 0 True] scenarioTag_selected READ_NDEF_at_zero]
    unfolding scenarioTag_counter_0 by simp
  then have "snd (processAPDU (scenarioTag 0 True) READ_NDEF) \<noteq> [0x6F, 0x00]"
    using readResponse_not_error [of "scenarioTag 0 True" 1 READ_NDEF] by simp
  with r show ?thesis by (simp add: scenarioTag_storage scenarioStore_def)
qed

lemma processAll_two_reads:
  assumes "validService this" and "selectedFileId (state this) = Some FILE_ID_NDEF"
      and "readBinaryAtZero c1" and "readBinaryAtZero c2"
  shows "fst (processAll this [c1]) = handleCounterIncrement this"
    and "fst (processAll this [c1, c2]) = handleCounterIncrement (handleCounterIncrement this)"
proof -
  have f1: "fst (processAPDU this c1) = handleCounterIncrement this"
    using read_at_zero(1) [OF assms(1,2,3)] .
  have v: "validService (handleCounterIncrement this)"
    using assms(1) by (rule validService_increment)
  have s: "selectedFileId (state (handleCounterIncrement this)) = Some FILE_ID_NDEF"
    using assms(2) by (simp add: handleCounterIncrement_frame)
  have f2: "fst (processAPDU (handleCounterIncrement this) c2)
              = handleCounterIncrement (handleCounterIncrement this)"
    using read_at_zero(1) [OF v s assms(4)] .
  show "fst (processAll this [c1]) = handleCounterIncrement this"
    using f1 by (auto split: prod.splits)
  show "fst (processAll this [c1, c2]) = handleCounterIncrement (handleCounterIncrement this)"
    using f1 f2 by (auto split: prod.splits)
qed

lemma numberToBytes_FFFFFE: "numberToBytes 0xFFFFFE 3 = [0xFF, 0xFF, 0xFE]"
  by (simp add: numberToBytes_3)

lemma incrementCounter_FFFFFE: "incrementCounter [0xFF, 0xFF, 0xFE] = [0xFF, 0xFF, 0xFF]"
  by (simp add: incrementCounter_def numeral_3_eq_3)

lemma incrementCounter_FFFFFF: "incrementCounter [0xFF, 0xFF, 0xFF] = [0x00, 0x00, 0x00]"
  by (simp add: incrementCounter_def numeral_3_eq_3)

lemma getCounter_scenarioStore: "getCounter (scenarioStore n fails) = n"
  by (simp add: getCounter_def scenarioStore_def loadConfig_def counterOrZero_def)

lemma getCounter_after_increment:
  "\<not> setItem_fails (storage this) \<Longrightarrow> \<not> getItem_fails (storage this) \<Longrightarrow>
     getCounter (storage (handleCounterIncrement this)) = getCounter (storage this) + 1"
  using storage_after_increment_ok [of this]
  by (auto simp: getCounter_def loadConfig_def counterOrZero_def)

lemma storage_flags_after_increment:
  "setItem_fails (storage (handleCounterIncrement this)) = setItem_fails (storage this)"
  "getItem_fails (storage (handleCounterIncrement this)) = getItem_fails (storage this)"
  by (auto simp: handleCounterIncrement_def split: sum.splits prod.splits
      simp: incrementStorageCounter_def updateConfig_def saveConfig_def Let_def)

text \<open>
  Claim C7 at the wrap. Started with the counter \<open>FFFFFE\<close> (16777214 in the store), the
  counter in memory, which the responses embed, is \<open>FFFFFF\<close> after the first read and
  \<open>000000\<close> after the second; the stored counter is 16777215 after the first read and
  16777216 after the second: it does not wrap.
\<close>

theorem counter_wrap_in_memory_not_in_store:
  "counter (state (fst (processAll (scenarioTag 0xFFFFFE False) [READ_NDEF]))) = [0xFF, 0xFF, 0xFF]
   \<and> counter (state (fst (processAll (scenarioTag 0xFFFFFE False) [READ_NDEF, READ_NDEF])))
       = [0x00, 0x00, 0x00]
   \<and> getCounter (storage (fst (processAll (scenarioTag 0xFFFFFE False) [READ_NDEF]))) = 0xFFFFFF
   \<and> getCounter (storage (fst (processAll (scenarioTag 0xFFFFFE False) [READ_NDEF, READ_NDEF])))
       = 0x1000000"
proof -
  let ?t = "scenarioTag 0xFFFFFE False"
  note p = processAll_two_reads [OF scenarioTag_valid [of "0xFFFFFE" False] scenarioTag_selected
             READ_NDEF_at_zero READ_NDEF_at_zero]
  have c0: "counter (state ?t) = [0xFF, 0xFF, 0xFE]"
    by (simp add: scenarioTag_eq numberToBytes_FFFFFE)
  have s0: "\<not> setItem_fails (storage ?t)" "\<not> getItem_fails (storage ?t)"
    "getCounter (storage ?t) = 0xFFFFFE"
    by (simp_all add: scenarioTag_storage getCounter_scenarioStore) (simp_all add: scenarioStore_def)
  have c1: "counter (state (handleCounterIncrement ?t)) = [0xFF, 0xFF, 0xFF]"
    by (simp add: handleCounterIncrement_frame c0 incrementCounter_FFFFFE)
  have c2: "counter (state (handleCounterIncrement (handleCounterIncrement ?t))) = [0, 0, 0]"
    by (simp add: handleCounterIncrement_frame c0 incrementCounter_FFFFFE incrementCounter_FFFFFF)
  have g1: "getCounter (storage (handleCounterIncrement ?t)) = 0xFFFFFF"
    using getCounter_after_increment [OF s0(1,2)] s0(3) by simp
  have g2: "getCounter (storage (handleCounterIncrement (handleCounterIncrement ?t))) = 0x1000000"
    using getCounter_after_increment [of "handleCounterIncrement ?t"] s0(1,2) g1
    by (simp add: storage_flags_after_increment)
  show ?thesis unfolding p using c1 c2 g1 g2 by simp
qed

section \<open>Reads at other offsets\<close>

lemma push_bit_or_low:
  fixes a b :: nat
  assumes "b < 2 ^ n"
  shows "push_bit n a OR b = a * 2 ^ n + b"
proof -
  from assms have b: "take_bit n b = b" by (simp add: take_bit_nat_eq_self)
  have "push_bit n a AND take_bit n b = 0"
    by (auto simp: bit_eq_iff bit_simps)
  then have "push_bit n a + b = push_bit n a OR b"
    unfolding b by (rule disjunctive_add_eq_or)
  then show ?thesis by (simp add: push_bit_eq_mult)
qed

lemma read_offset_value:
  "push_bit 8 (unat p1) OR unat p2 = unat p1 * 256 + unat p2" for p1 p2 :: byte
proof -
  have "unat p2 < 2 ^ 8" using unsigned_less [of p2] by simp
  from push_bit_or_low [OF this, of "unat p1"] show ?thesis by simp
qed

lemma handleSelect_frame:
  "counter (state (fst (handleSelectCommand this command))) = counter (state this)"
  "storage (fst (handleSelectCommand this command)) = storage this"
  by (auto simp: handleSelectCommand_def handleSelect_def Let_def split: option.splits)

lemma handleReadCommand_frame:
  assumes "counter (state (fst (handleReadCommand this command))) \<noteq> counter (state this)
           \<or> storage (fst (handleReadCommand this command)) \<noteq> storage this"
  shows "selectedFileId (state this) = Some FILE_ID_NDEF \<and> P1 command = 0 \<and> P2 command = 0"
  using assms
  by (auto simp: handleReadCommand_def handleReadBinary_def getReadOffset_def getReadLength_def
        Let_def read_offset_zero_iff
      split: option.splits sum.splits if_splits)

lemma processAPDU_frame:
  assumes "counter (state (fst (processAPDU this c))) \<noteq> counter (state this)
           \<or> storage (fst (processAPDU this c)) \<noteq> storage this"
  shows "readBinaryAtZero c \<and> selectedFileId (state this) = Some FILE_ID_NDEF"
proof (cases "parseAPDU c")
  case (Inl e)
  with assms show ?thesis by (simp add: processAPDU_def)
next
  case (Inr command)
  show ?thesis
  proof (cases "isSelectCommand command")
    case True
    with Inr have "fst (processAPDU this c) = fst (handleSelectCommand this command)"
      by (simp add: processAPDU_def split: prod.splits)
    with assms show ?thesis by (simp add: handleSelect_frame)
  next
    case False
    show ?thesis
    proof (cases "isReadBinaryCommand command")
      case True
      with Inr False have "fst (processAPDU this c) = fst (handleReadCommand this command)"
        by (auto simp: processAPDU_def split: prod.splits sum.splits)
      with assms handleReadCommand_frame [of this command] True Inr show ?thesis
        by (simp add: readBinaryAtZero_def)
    next
      case nr: False
      with Inr False assms show ?thesis by (simp add: processAPDU_def)
    qed
  qed
qed

text \<open>
  Claim C10. With the NDEF file selected, a READ BINARY whose offset bytes P1, P2 are not
  both zero leaves the tag as it was, the counter in memory and the store included, and
  its response is the slice of the NDEF file regenerated for the unchanged counter, from
  the offset \<open>256 * P1 + P2\<close> on, followed by \<open>9000\<close> (or \<open>6F00\<close> if the file cannot be
  built). Any command that changes the counter in memory or the store is a READ BINARY
  at offset 0 with the NDEF file selected.
\<close>

theorem nonzero_offset_read_frame:
  assumes "selectedFileId (state this) = Some FILE_ID_NDEF"
      and "parseAPDU c = Inr command" and "isReadBinaryCommand command"
      and "P1 command \<noteq> 0 \<or> P2 command \<noteq> 0"
  shows "fst (processAPDU this c) = this
       \<and> snd (processAPDU this c)
           = (case generateNDEFData this of
                Inl e \<Rightarrow> [0x6F, 0x00]
              | Inr ndef \<Rightarrow>
                  slice (unat (P1 command) * 256 + unat (P2 command))
                        (unat (P1 command) * 256 + unat (P2 command) + requestedLength c) ndef
                    @ [0x90, 0x00])
       \<and> (counter (state (fst (processAPDU this' c'))) \<noteq> counter (state this')
            \<or> storage (fst (processAPDU this' c')) \<noteq> storage this'
          \<longrightarrow> readBinaryAtZero c' \<and> selectedFileId (state this') = Some FILE_ID_NDEF)"
proof -
  from assms(4) have "push_bit 8 (unat (P1 command)) OR unat (P2 command) \<noteq> 0"
    by (simp add: read_offset_zero_iff)
  then have nz: "unat (P1 command) * 256 + unat (P2 command) \<noteq> 0"
    unfolding read_offset_value .
  have "processAPDU this c =
          (this, case generateNDEFData this of
                   Inl e \<Rightarrow> [0x6F, 0x00]
                 | Inr ndef \<Rightarrow>
                     slice (unat (P1 command) * 256 + unat (P2 command))
                           (unat (P1 command) * 256 + unat (P2 command) + requestedLength c) ndef
                       @ [0x90, 0x00])"
    unfolding processAPDU_read_ndef [OF assms(2,3,1)] Let_def
    by (simp only: read_offset_value nz if_False)
  then show ?thesis using processAPDU_frame [of this' c'] by auto
qed

lemma READ_NDEF_CONTINUED_parse:
  "parseAPDU READ_NDEF_CONTINUED
     = Inr \<lparr>CLA = 0x00, INS = 0xB0, P1 = 0x00, P2 = 0x40, Lc = None, cmd_data = None,
            Le = Some 0xFF\<rparr>"
  by (simp add: READ_NDEF_CONTINUED_def parseAPDU_def)

theorem nonzero_offset_read_frame_witness:
  "fst (processAPDU (scenarioTag 0 False) READ_NDEF_CONTINUED) = scenarioTag 0 False
   \<and> snd (processAPDU (scenarioTag 0 False) READ_NDEF_CONTINUED)
       = (case generateNDEFData (scenarioTag 0 False) of
            Inl e \<Rightarrow> [0x6F, 0x00]
          | Inr ndef \<Rightarrow> slice 64 (64 + 255) ndef @ [0x90, 0x00])
   \<and> readBinaryAtZero READ_NDEF
   \<and> counter (state (fst (processAPDU (scenarioTag 0 False) READ_NDEF)))
       \<noteq> counter (state (scenarioTag 0 False))"
proof -
  have rl: "requestedLength READ_NDEF_CONTINUED = 255"
    by (simp add: requestedLength_def READ_NDEF_CONTINUED_parse getReadLength_def
          isReadBinaryCommand_def)
  have c: "counter (state (fst (processAPDU (scenarioTag 0 False) READ_NDEF)))
             \<noteq> counter (state (scenarioTag 0 False))"
    using read_at_zero(1) [OF scenarioTag_valid [of 0 False] scenarioTag_selected READ_NDEF_at_zero]
    by (simp add: handleCounterIncrement_frame scenarioTag_counter_0 incrementCounter_def
          numeral_3_eq_3)
  from nonzero_offset_read_frame
         [OF scenarioTag_selected [of 0 False] READ_NDEF_CONTINUED_parse,
          of "scenarioTag 0 False" READ_NDEF]
  show ?thesis using c rl READ_NDEF_at_zero
    by (simp add: isReadBinaryCommand_def cong: sum.case_cong)
qed

section \<open>CMAC: the subkeys as 128-bit words\<close>

lemma byte_and_ff: "(x :: byte) AND 0xFF = x"
proof -
  have "(0xFF :: byte) = - 1" by simp
  then show ?thesis by (simp only: and.right_neutral word_bw_same and.comm_neutral)
qed

lemma carry_byte: "unat (drop_bit 7 ((d :: byte) AND 0x80)) = unat d div 128"
proof -
  have u: "unat d < 256" using unsigned_less [of d] by simp
  have "unat (drop_bit 7 (d AND 0x80)) = drop_bit 7 (unat d) AND drop_bit 7 (128::nat)"
    by (simp add: unat_drop_bit_eq unsigned_and_eq)
  also have "drop_bit 7 (128::nat) = 1" by (simp add: drop_bit_eq_div)
  also have "drop_bit 7 (unat d) AND 1 = (unat d div 128) mod 2"
    by (simp add: and_one_eq drop_bit_eq_div)
  also have "\<dots> = unat d div 128" using u by simp
  finally show ?thesis .
qed

lemma unat_push_bit_1: "unat (push_bit 1 (d :: byte)) = (2 * unat d) mod 256"
  by (simp add: push_bit_eq_mult unat_word_ariths mult.commute)

lemma shift_byte:
  assumes "c = 0 \<or> c = 1"
  shows "unat ((push_bit 1 (d :: byte) OR c) AND 0xFF) = (2 * unat d) mod 256 + unat c"
proof -
  from assms show ?thesis
  proof
    assume "c = 0"
    then show ?thesis by (simp only: byte_and_ff or.right_neutral unat_push_bit_1) simp
  next
    assume c: "c = 1"
    have ev: "even (push_bit 1 d)" by (simp add: push_bit_eq_mult)
    have "(2 * unat d) mod 256 = 2 * (unat d mod 128)" by (simp add: mult_mod_right)
    then have e2: "even ((2 * unat d) mod 256)" by simp
    have "(2 * unat d) mod 256 < 256" by simp
    with e2 have lt: "(2 * unat d) mod 256 + 1 < 256"
    proof -
      have "(2 * unat d) mod 256 \<noteq> 255"
      proof
        assume "(2 * unat d) mod 256 = 255"
        with e2 have "even (255::nat)" by simp
        then show False by simp
      qed
      with \<open>(2 * unat d) mod 256 < 256\<close> show ?thesis by simp
    qed
    have "push_bit 1 d OR 1 = push_bit 1 d + 1" using ev by (simp add: or_one_eq)
    then have "unat ((push_bit 1 d OR c) AND 0xFF) = unat (push_bit 1 d + 1)"
      using c by (simp only: byte_and_ff)
    also have "\<dots> = (unat (push_bit 1 d) + 1) mod 256" by (simp add: unat_word_ariths)
    also have "\<dots> = ((2 * unat d) mod 256 + 1) mod 256" by (simp only: unat_push_bit_1)
    also have "\<dots> = (2 * unat d) mod 256 + 1" using lt by (rule mod_less)
    finally show ?thesis using c by simp
  qed
qed

lemma shift_byte_less:
  assumes "c = 0 \<or> c = 1"
  shows "(2 * unat (d :: byte)) mod 256 + unat (c :: byte) < 256"
proof -
  define r where "r = unat d mod 128"
  have e: "(2 * unat d) mod 256 = 2 * r" by (simp add: r_def mult_mod_right)
  have "r < 128" by (simp add: r_def)
  moreover from assms have "unat c \<le> 1" by auto
  ultimately show ?thesis unfolding e by simp
qed

lemma carry_byte_cases: "drop_bit 7 ((d :: byte) AND 0x80) = 0 \<or> drop_bit 7 (d AND 0x80) = 1"
proof -
  define q where "q = unat d div 128"
  have "unat d < 256" using unsigned_less [of d] by simp
  then have "q < 2" by (simp add: q_def)
  then have "q = 0 \<or> q = 1" by auto
  then have "unat (drop_bit 7 (d AND 0x80)) = 0 \<or> unat (drop_bit 7 (d AND 0x80)) = 1"
    unfolding carry_byte q_def .
  then show ?thesis
  proof
    assume "unat (drop_bit 7 (d AND 0x80)) = 0"
    then have "drop_bit 7 (d AND 0x80) = 0" by (simp only: unat_eq_zero)
    then show ?thesis ..
  next
    assume "unat (drop_bit 7 (d AND 0x80)) = 1"
    then have "of_nat (unat (drop_bit 7 (d AND 0x80))) = (of_nat 1 :: byte)" by (simp only:)
    then have "drop_bit 7 (d AND 0x80) = 1" by simp
    then show ?thesis ..
  qed
qed

lemma shift_step_arith:
  fixes a u cn :: nat
  assumes "u < 256" and "(2 * u) mod 256 + cn < 256"
  shows "256 * ((2 * a + u div 128) mod m) + ((2 * u) mod 256 + cn)
           = (2 * (256 * a + u) + cn) mod (256 * m)"
proof -
  define y where "y = (2 * u) mod 256 + cn"
  define x where "x = 2 * a + u div 128"
  have y: "y < 256" using assms(2) by (simp add: y_def)
  have d: "(2 * u) div 256 = u div 128" by simp
  have "2 * u = 256 * ((2 * u) div 256) + (2 * u) mod 256"
    by (rule mult_div_mod_eq [symmetric])
  then have "2 * u = 256 * (u div 128) + (2 * u) mod 256" by (simp only: d)
  then have e: "2 * (256 * a + u) + cn = 256 * x + y"
    unfolding x_def y_def by (simp only: distrib_left add.assoc mult.assoc [symmetric])
  have "(256 * x + y) mod (256 * m) = 256 * ((256 * x + y) div 256 mod m) + (256 * x + y) mod 256"
    by (rule mod_mult2_eq)
  moreover have "(256 * x + y) div 256 = x" using y by simp
  moreover have "(256 * x + y) mod 256 = y" using y by simp
  ultimately have "(256 * x + y) mod (256 * m) = 256 * (x mod m) + y" by simp
  then show ?thesis unfolding e unfolding x_def y_def by simp
qed

lemma leftShiftOne_loop_value:
  assumes "c = 0 \<or> c = 1"
  shows "length result = length data \<Longrightarrow> k \<le> length data \<Longrightarrow>
         drop k (leftShiftOne_loop k data result c) = drop k result
       \<and> be_nat (take k (leftShiftOne_loop k data result c))
           = (2 * be_nat (take k data) + unat c) mod 256 ^ k"
  using assms
proof (induction k arbitrary: result c)
  case 0
  then show ?case by simp
next
  case (Suc i)
  let ?d = "data ! i"
  let ?v = "(push_bit 1 ?d OR c) AND 0xFF"
  let ?c' = "drop_bit 7 (?d AND 0x80)"
  let ?result' = "result[i := ?v]"
  let ?r = "leftShiftOne_loop i data ?result' ?c'"
  from Suc.prems have i: "i < length data" and il: "i \<le> length data"
    and lr: "length ?result' = length data" by simp_all
  note ih = Suc.IH [OF lr il carry_byte_cases]
  from ih have dr: "drop i ?r = drop i ?result'" by simp
  from ih have val: "be_nat (take i ?r) = (2 * be_nat (take i data) + unat ?c') mod 256 ^ i"
    by simp
  have len: "length ?r = length data" using lr by (simp add: length_leftShiftOne_loop)
  have ri: "?r ! i = ?v"
  proof -
    have "?r ! i = hd (drop i ?r)" using i len by (simp add: hd_drop_conv_nth)
    also have "\<dots> = hd (drop i ?result')" by (simp only: dr)
    also have "\<dots> = ?result' ! i" using i lr by (simp add: hd_drop_conv_nth)
    also have "\<dots> = ?v" using i Suc.prems(1) by simp
    finally show ?thesis .
  qed
  have d1: "drop (Suc i) ?r = drop (Suc i) result"
  proof -
    have "drop (Suc i) ?r = drop 1 (drop i ?r)" by simp
    also have "\<dots> = drop 1 (drop i ?result')" by (simp only: dr)
    also have "\<dots> = drop (Suc i) result" by simp
    finally show ?thesis .
  qed
  have tk: "take (Suc i) ?r = take i ?r @ [?v]"
    using i len ri by (simp add: take_Suc_conv_app_nth)
  have td: "take (Suc i) data = take i data @ [?d]"
    using i by (simp add: take_Suc_conv_app_nth)
  have u: "unat ?d < 256" using unsigned_less [of ?d] by simp
  have "be_nat (take (Suc i) ?r)
          = 256 * ((2 * be_nat (take i data) + unat ?d div 128) mod 256 ^ i)
              + ((2 * unat ?d) mod 256 + unat c)"
    unfolding tk be_nat_snoc val carry_byte shift_byte [OF Suc.prems(3)] ..
  also have "\<dots> = (2 * (256 * be_nat (take i data) + unat ?d) + unat c) mod (256 * 256 ^ i)"
    using u shift_byte_less [OF Suc.prems(3)] by (rule shift_step_arith)
  also have "\<dots> = (2 * be_nat (take (Suc i) data) + unat c) mod 256 ^ Suc i"
    unfolding td be_nat_snoc by simp
  finally have "be_nat (take (Suc i) ?r)
                  = (2 * be_nat (take (Suc i) data) + unat c) mod 256 ^ Suc i" .
  with d1 show ?case by simp
qed

lemma be_nat_leftShiftOne:
  "be_nat (leftShiftOne d) = (2 * be_nat d) mod 256 ^ length d"
  using leftShiftOne_loop_value [of 0 "replicate (length d) 0" d "length d"]
  by (simp add: leftShiftOne_def length_leftShiftOne_loop)

lemma xor_low_part:
  fixes b u k :: nat
  assumes "u < 2 ^ n" and "k < 2 ^ n"
  shows "(b * 2 ^ n + u) XOR k = b * 2 ^ n + (u XOR k)"
proof -
  have u: "take_bit n u = u" using assms(1) by (simp add: take_bit_nat_eq_self)
  have k: "take_bit n k = k" using assms(2) by (simp add: take_bit_nat_eq_self)
  have x: "u XOR k < 2 ^ n"
  proof -
    have "take_bit n (u XOR k) = take_bit n u XOR take_bit n k" by (rule take_bit_xor)
    then have "take_bit n (u XOR k) = u XOR k" by (simp only: u k)
    then show ?thesis by (simp only: take_bit_nat_eq_self_iff)
  qed
  have "(push_bit n b OR take_bit n u) XOR take_bit n k
          = push_bit n b OR (take_bit n u XOR take_bit n k)"
    by (auto simp: bit_eq_iff bit_simps)
  then have "(push_bit n b OR u) XOR k = push_bit n b OR (u XOR k)" by (simp only: u k)
  then show ?thesis
    by (simp only: push_bit_or_low [OF assms(1)] push_bit_or_low [OF x])
qed

lemma xor_low_byte:
  fixes b u :: nat
  assumes "u < 256"
  shows "(256 * b + u) XOR 135 = 256 * b + (u XOR 135)"
  using xor_low_part [of u 8 135 b] assms by (simp add: mult.commute)

lemma map2_xor_zeros: "length s = n \<Longrightarrow> map2 (XOR) s (replicate n (0::byte)) = s"
  by (induction s arbitrary: n) auto

lemma xor_Rb_bytes:
  assumes "length s = 16"
  shows "be_nat (map2 (XOR) s Rb_bytes) = be_nat s XOR 135"
proof -
  from assms obtain s' z where s: "s = s' @ [z]" and l: "length s' = 15"
    by (cases s rule: rev_cases) auto
  have "map2 (XOR) s Rb_bytes = map2 (XOR) s' (replicate 15 0) @ [z XOR 0x87]"
    using l by (simp add: s Rb_bytes_def)
  also have "\<dots> = s' @ [z XOR 0x87]" using l by (simp add: map2_xor_zeros)
  finally have "be_nat (map2 (XOR) s Rb_bytes) = 256 * be_nat s' + unat (z XOR 0x87)"
    by (simp only: be_nat_snoc)
  also have "unat (z XOR 0x87) = unat z XOR 135" by (simp add: unsigned_xor_eq)
  also have "256 * be_nat s' + (unat z XOR 135) = (256 * be_nat s' + unat z) XOR 135"
    using unsigned_less [of z] by (intro xor_low_byte [symmetric]) simp
  finally show ?thesis by (simp only: s be_nat_snoc)
qed

lemma msb_set_iff:
  assumes "length a = 16"
  shows "msb_set a \<longleftrightarrow> 2 ^ 127 \<le> be_nat a"
proof -
  from assms obtain x a' where a: "a = x # a'" and l: "length a' = 15"
    by (cases a) auto
  have r: "be_nat a' < 256 ^ 15" using be_nat_less [of a'] l by simp
  have v: "be_nat a = unat x * 256 ^ 15 + be_nat a'" by (simp add: a l)
  have p: "(2::nat) ^ 127 = 128 * 256 ^ 15" by simp
  have "x AND 0x80 \<noteq> 0 \<longleftrightarrow> 128 \<le> unat x"
  proof -
    have ux: "unat x < 256" using unsigned_less [of x] by simp
    have "(0x80 :: byte) = push_bit 7 1" by simp
    then have "x AND 0x80 \<noteq> 0 \<longleftrightarrow> bit x 7"
      by (simp only: bit_iff_and_push_bit_not_eq_0)
    also have "\<dots> \<longleftrightarrow> bit (unat x) 7" by (simp add: bit_unsigned_iff)
    also have "\<dots> \<longleftrightarrow> odd (unat x div 128)" by (simp add: bit_iff_odd)
    also have "\<dots> \<longleftrightarrow> 128 \<le> unat x"
    proof (cases "128 \<le> unat x")
      case True
      with ux have "unat x div 128 = 1" by simp
      with True show ?thesis by simp
    next
      case False
      then have "unat x div 128 = 0" by simp
      with False show ?thesis by simp
    qed
    finally show ?thesis .
  qed
  moreover have "128 \<le> unat x \<longleftrightarrow> 128 * 256 ^ 15 \<le> unat x * 256 ^ 15 + be_nat a'"
  proof
    assume "128 \<le> unat x"
    then have "128 * 256 ^ 15 \<le> unat x * (256::nat) ^ 15" by (rule mult_le_mono1)
    then show "128 * 256 ^ 15 \<le> unat x * 256 ^ 15 + be_nat a'" by simp
  next
    assume h: "128 * 256 ^ 15 \<le> unat x * 256 ^ 15 + be_nat a'"
    show "128 \<le> unat x"
    proof (rule ccontr)
      assume "\<not> 128 \<le> unat x"
      then have "unat x + 1 \<le> 128" by simp
      then have "(unat x + 1) * 256 ^ 15 \<le> 128 * (256::nat) ^ 15" by (rule mult_le_mono1)
      with r h show False by (simp add: algebra_simps)
    qed
  qed
  moreover have "msb_set a \<longleftrightarrow> x AND 0x80 \<noteq> 0" by (simp add: msb_set_def a)
  ultimately show ?thesis unfolding v p by blast
qed

lemma pow_256_16: "(256::nat) ^ 16 = 2 ^ 128"
  by simp

lemma unat_block_word:
  "length a = 16 \<Longrightarrow> unat (block_word a) = be_nat a"
proof -
  assume "length a = 16"
  then have "be_nat a < 2 ^ 128" using be_nat_less [of a] by (simp only: pow_256_16)
  then show ?thesis by (simp add: block_word_def unat_of_nat)
qed

lemma unat_push_bit_1_block:
  "unat (push_bit 1 (w :: 128 word)) = (2 * unat w) mod 2 ^ 128"
  by (simp add: push_bit_eq_mult unat_word_ariths mult.commute)

lemma bit_127_iff: "bit (w :: 128 word) 127 \<longleftrightarrow> 2 ^ 127 \<le> unat w"
proof -
  have lt: "unat w < 2 ^ 128" using unsigned_less [of w] by simp
  have "bit w 127 \<longleftrightarrow> bit (unat w) 127" by (simp add: bit_unsigned_iff)
  also have "\<dots> \<longleftrightarrow> odd (unat w div 2 ^ 127)" by (simp only: bit_iff_odd)
  also have "\<dots> \<longleftrightarrow> 2 ^ 127 \<le> unat w"
  proof (cases "2 ^ 127 \<le> unat w")
    case True
    have "unat w div 2 ^ 127 = 1"
      by (rule div_nat_eqI) (use True lt in simp_all)
    with True show ?thesis by simp
  next
    case False
    then have "unat w div 2 ^ 127 = 0" by simp
    with False show ?thesis by simp
  qed
  finally show ?thesis .
qed

lemma unat_nist_dbl:
  "unat (nist_dbl w)
     = (if 2 ^ 127 \<le> unat w then ((2 * unat w) mod 2 ^ 128) XOR 135 else (2 * unat w) mod 2 ^ 128)"
proof -
  have "unat (R_b) = 135" by (simp add: R_b_def)
  then show ?thesis
    by (simp only: nist_dbl_def bit_127_iff unsigned_xor_eq unat_push_bit_1_block if_distrib [of unat])
qed

lemma be_nat_dbl_bytes:
  assumes "length a = 16"
  shows "be_nat (dbl_bytes a)
     = (if 2 ^ 127 \<le> be_nat a then ((2 * be_nat a) mod 2 ^ 128) XOR 135 else (2 * be_nat a) mod 2 ^ 128)"
proof -
  have s: "be_nat (leftShiftOne a) = (2 * be_nat a) mod 2 ^ 128"
    using be_nat_leftShiftOne [of a] assms by (simp only: pow_256_16)
  have l: "length (leftShiftOne a) = 16" using assms by simp
  show ?thesis
    by (simp only: dbl_bytes_def msb_set_iff [OF assms] xor_Rb_bytes [OF l] s if_distrib [of be_nat])
qed

lemma dbl_bytes_word:
  assumes "length a = 16"
  shows "dbl_bytes a = word_block (nist_dbl (block_word a))"
proof -
  have "unat (nist_dbl (block_word a)) = be_nat (dbl_bytes a)"
    by (simp only: unat_nist_dbl be_nat_dbl_bytes [OF assms] unat_block_word [OF assms])
  then have "word_block (nist_dbl (block_word a)) = nat_to_be 16 (be_nat (dbl_bytes a))"
    by (simp only: word_block_def)
  also have "\<dots> = dbl_bytes a"
    using nat_to_be_be_nat [of "dbl_bytes a"] length_dbl_bytes [OF assms] by simp
  finally show ?thesis by simp
qed

lemma block_word_dbl_bytes:
  assumes "length a = 16"
  shows "block_word (dbl_bytes a) = nist_dbl (block_word a)"
proof -
  have "unat (nist_dbl (block_word a)) = be_nat (dbl_bytes a)"
    by (simp only: unat_nist_dbl be_nat_dbl_bytes [OF assms] unat_block_word [OF assms])
  then have "block_word (dbl_bytes a) = of_nat (unat (nist_dbl (block_word a)))"
    by (simp only: block_word_def)
  then show ?thesis by simp
qed

lemma nist_subkeys_eq:
  assumes "length key = 16"
  shows "nist_subkeys key
           = (dbl_bytes (aes128_encrypt_block key (replicate 16 0)),
              dbl_bytes (dbl_bytes (aes128_encrypt_block key (replicate 16 0))))"
proof -
  let ?l = "aes128_encrypt_block key (replicate 16 0)"
  have l: "length ?l = 16" using assms by (rule length_aes128_encrypt_block)
  have l1: "length (dbl_bytes ?l) = 16" using l by (rule length_dbl_bytes)
  have k1: "word_block (nist_dbl (block_word ?l)) = dbl_bytes ?l"
    using dbl_bytes_word [OF l] by simp
  have "word_block (nist_dbl (nist_dbl (block_word ?l)))
          = word_block (nist_dbl (block_word (dbl_bytes ?l)))"
    by (simp only: block_word_dbl_bytes [OF l])
  also have "\<dots> = dbl_bytes (dbl_bytes ?l)" using dbl_bytes_word [OF l1] by simp
  finally have k2: "word_block (nist_dbl (nist_dbl (block_word ?l))) = dbl_bytes (dbl_bytes ?l)" .
  show ?thesis unfolding nist_subkeys_def Let_def k1 k2 ..
qed

lemma nist_last_block_eq:
  assumes "length key = 16"
  shows "nist_last_block key m = last_block_bytes key m"
proof (cases "m = []")
  case True
  then show ?thesis
    by (simp add: nist_last_block_def last_block_bytes_def nist_subkeys_eq [OF assms])
next
  case False
  have len: "length (last (blocks16 m)) = (if length m mod 16 = 0 then 16 else length m mod 16)"
    unfolding last_blocks16 [OF False] by (rule length_last_data [OF False])
  have lt: "length m mod 16 < 16" by simp
  have c: "length (last (blocks16 m)) = 16 \<longleftrightarrow> length m mod 16 = 0"
  proof (cases "length m mod 16 = 0")
    case True
    with len show ?thesis by simp
  next
    case False
    with len lt show ?thesis by (metis less_irrefl)
  qed
  show ?thesis
    unfolding nist_last_block_def last_block_bytes_def Let_def nist_subkeys_eq [OF assms] c
    using False by (simp add: last_blocks16)
qed

lemma cmac_refines_nist:
  assumes "length key = 16"
  shows "cmac key m = Inr (nist_cmac key m)"
  unfolding cmac_eq [OF assms] nist_cmac_def nist_last_block_eq [OF assms] ..

section \<open>CMAC: the examples of NIST SP 800-38B, by evaluation\<close>

lemma sub_byte_values:
  "sub_byte 0 = 0x63" "sub_byte 1 = 0x7C" "sub_byte 0x02 = 0x77" "sub_byte 0x03 = 0x7B"
  "sub_byte 0x04 = 0xF2" "sub_byte 0x05 = 0x6B" "sub_byte 0x06 = 0x6F" "sub_byte 0x07 = 0xC5"
  "sub_byte 0x08 = 0x30" "sub_byte 0x09 = 1" "sub_byte 0x0A = 0x67" "sub_byte 0x0B = 0x2B"
  "sub_byte 0x0C = 0xFE" "sub_byte 0x0D = 0xD7" "sub_byte 0x0E = 0xAB" "sub_byte 0x0F = 0x76"
  "sub_byte 0x10 = 0xCA" "sub_byte 0x11 = 0x82" "sub_byte 0x12 = 0xC9" "sub_byte 0x13 = 0x7D"
  "sub_byte 0x14 = 0xFA" "sub_byte 0x15 = 0x59" "sub_byte 0x16 = 0x47" "sub_byte 0x17 = 0xF0"
  "sub_byte 0x18 = 0xAD" "sub_byte 0x19 = 0xD4" "sub_byte 0x1A = 0xA2" "sub_byte 0x1B = 0xAF"
  "sub_byte 0x1C = 0x9C" "sub_byte 0x1D = 0xA4" "sub_byte 0x1E = 0x72" "sub_byte 0x1F = 0xC0"
  "sub_byte 0x20 = 0xB7" "sub_byte 0x21 = 0xFD" "sub_byte 0x22 = 0x93" "sub_byte 0x23 = 0x26"
  "sub_byte 0x24 = 0x36" "sub_byte 0x25 = 0x3F" "sub_byte 0x26 = 0xF7" "sub_byte 0x27 = 0xCC"
  "sub_byte 0x28 = 0x34" "sub_byte 0x29 = 0xA5" "sub_byte 0x2A = 0xE5" "sub_byte 0x2B = 0xF1"
  "sub_byte 0x2C = 0x71" "sub_byte 0x2D = 0xD8" "sub_byte 0x2E = 0x31" "sub_byte 0x2F = 0x15"
  "sub_byte 0x30 = 0x04" "sub_byte 0x31 = 0xC7" "sub_byte 0x32 = 0x23" "sub_byte 0x33 = 0xC3"
  "sub_byte 0x34 = 0x18" "sub_byte 0x35 = 0x96" "sub_byte 0x36 = 0x05" "sub_byte 0x37 = 0x9A"
  "sub_byte 0x38 = 0x07" "sub_byte 0x39 = 0x12" "sub_byte 0x3A = 0x80" "sub_byte 0x3B = 0xE2"
  "sub_byte 0x3C = 0xEB" "sub_byte 0x3D = 0x27" "sub_byte 0x3E = 0xB2" "sub_byte 0x3F = 0x75"
  "sub_byte 0x40 = 0x09" "sub_byte 0x41 = 0x83" "sub_byte 0x42 = 0x2C" "sub_byte 0x43 = 0x1A"
  "sub_byte 0x44 = 0x1B" "sub_byte 0x45 = 0x6E" "sub_byte 0x46 = 0x5A" "sub_byte 0x47 = 0xA0"
  "sub_byte 0x48 = 0x52" "sub_byte 0x49 = 0x3B" "sub_byte 0x4A = 0xD6" "sub_byte 0x4B = 0xB3"
  "sub_byte 0x4C = 0x29" "sub_byte 0x4D = 0xE3" "sub_byte 0x4E = 0x2F" "sub_byte 0x4F = 0x84"
  "sub_byte 0x50 = 0x53" "sub_byte 0x51 = 0xD1" "sub_byte 0x52 = 0" "sub_byte 0x53 = 0xED"
  "sub_byte 0x54 = 0x20" "sub_byte 0x55 = 0xFC" "sub_byte 0x56 = 0xB1" "sub_byte 0x57 = 0x5B"
  "sub_byte 0x58 = 0x6A" "sub_byte 0x59 = 0xCB" "sub_byte 0x5A = 0xBE" "sub_byte 0x5B = 0x39"
  "sub_byte 0x5C = 0x4A" "sub_byte 0x5D = 0x4C" "sub_byte 0x5E = 0x58" "sub_byte 0x5F = 0xCF"
  "sub_byte 0x60 = 0xD0" "sub_byte 0x61 = 0xEF" "sub_byte 0x62 = 0xAA" "sub_byte 0x63 = 0xFB"
  "sub_byte 0x64 = 0x43" "sub_byte 0x65 = 0x4D" "sub_byte 0x66 = 0x33" "sub_byte 0x67 = 0x85"
  "sub_byte 0x68 = 0x45" "sub_byte 0x69 = 0xF9" "sub_byte 0x6A = 0x02" "sub_byte 0x6B = 0x7F"
  "sub_byte 0x6C = 0x50" "sub_byte 0x6D = 0x3C" "sub_byte 0x6E = 0x9F" "sub_byte 0x6F = 0xA8"
  "sub_byte 0x70 = 0x51" "sub_byte 0x71 = 0xA3" "sub_byte 0x72 = 0x40" "sub_byte 0x73 = 0x8F"
  "sub_byte 0x74 = 0x92" "sub_byte 0x75 = 0x9D" "sub_byte 0x76 = 0x38" "sub_byte 0x77 = 0xF5"
  "sub_byte 0x78 = 0xBC" "sub_byte 0x79 = 0xB6" "sub_byte 0x7A = 0xDA" "sub_byte 0x7B = 0x21"
  "sub_byte 0x7C = 0x10" "sub_byte 0x7D = 0xFF" "sub_byte 0x7E = 0xF3" "sub_byte 0x7F = 0xD2"
  "sub_byte 0x80 = 0xCD" "sub_byte 0x81 = 0x0C" "sub_byte 0x82 = 0x13" "sub_byte 0x83 = 0xEC"
  "sub_byte 0x84 = 0x5F" "sub_byte 0x85 = 0x97" "sub_byte 0x86 = 0x44" "sub_byte 0x87 = 0x17"
  "sub_byte 0x88 = 0xC4" "sub_byte 0x89 = 0xA7" "sub_byte 0x8A = 0x7E" "sub_byte 0x8B = 0x3D"
  "sub_byte 0x8C = 0x64" "sub_byte 0x8D = 0x5D" "sub_byte 0x8E = 0x19" "sub_byte 0x8F = 0x73"
  "sub_byte 0x90 = 0x60" "sub_byte 0x91 = 0x81" "sub_byte 0x92 = 0x4F" "sub_byte 0x93 = 0xDC"
  "sub_byte 0x94 = 0x22" "sub_byte 0x95 = 0x2A" "sub_byte 0x96 = 0x90" "sub_byte 0x97 = 0x88"
  "sub_byte 0x98 = 0x46" "sub_byte 0x99 = 0xEE" "sub_byte 0x9A = 0xB8" "sub_byte 0x9B = 0x14"
  "sub_byte 0x9C = 0xDE" "sub_byte 0x9D = 0x5E" "sub_byte 0x9E = 0x0B" "sub_byte 0x9F = 0xDB"
  "sub_byte 0xA0 = 0xE0" "sub_byte 0xA1 = 0x32" "sub_byte 0xA2 = 0x3A" "sub_byte 0xA3 = 0x0A"
  "sub_byte 0xA4 = 0x49" "sub_byte 0xA5 = 0x06" "sub_byte 0xA6 = 0x24" "sub_byte 0xA7 = 0x5C"
  "sub_byte 0xA8 = 0xC2" "sub_byte 0xA9 = 0xD3" "sub_byte 0xAA = 0xAC" "sub_byte 0xAB = 0x62"
  "sub_byte 0xAC = 0x91" "sub_byte 0xAD = 0x95" "sub_byte 0xAE = 0xE4" "sub_byte 0xAF = 0x79"
  "sub_byte 0xB0 = 0xE7" "sub_byte 0xB1 = 0xC8" "sub_byte 0xB2 = 0x37" "sub_byte 0xB3 = 0x6D"
  "sub_byte 0xB4 = 0x8D" "sub_byte 0xB5 = 0xD5" "sub_byte 0xB6 = 0x4E" "sub_byte 0xB7 = 0xA9"
  "sub_byte 0xB8 = 0x6C" "sub_byte 0xB9 = 0x56" "sub_byte 0xBA = 0xF4" "sub_byte 0xBB = 0xEA"
  "sub_byte 0xBC = 0x65" "sub_byte 0xBD = 0x7A" "sub_byte 0xBE = 0xAE" "sub_byte 0xBF = 0x08"
  "sub_byte 0xC0 = 0xBA" "sub_byte 0xC1 = 0x78" "sub_byte 0xC2 = 0x25" "sub_byte 0xC3 = 0x2E"
  "sub_byte 0xC4 = 0x1C" "sub_byte 0xC5 = 0xA6" "sub_byte 0xC6 = 0xB4" "sub_byte 0xC7 = 0xC6"
  "sub_byte 0xC8 = 0xE8" "sub_byte 0xC9 = 0xDD" "sub_byte 0xCA = 0x74" "sub_byte 0xCB = 0x1F"
  "sub_byte 0xCC = 0x4B" "sub_byte 0xCD = 0xBD" "sub_byte 0xCE = 0x8B" "sub_byte 0xCF = 0x8A"
  "sub_byte 0xD0 = 0x70" "sub_byte 0xD1 = 0x3E" "sub_byte 0xD2 = 0xB5" "sub_byte 0xD3 = 0x66"
  "sub_byte 0xD4 = 0x48" "sub_byte 0xD5 = 0x03" "sub_byte 0xD6 = 0xF6" "sub_byte 0xD7 = 0x0E"
  "sub_byte 0xD8 = 0x61" "sub_byte 0xD9 = 0x35" "sub_byte 0xDA = 0x57" "sub_byte 0xDB = 0xB9"
  "sub_byte 0xDC = 0x86" "sub_byte 0xDD = 0xC1" "sub_byte 0xDE = 0x1D" "sub_byte 0xDF = 0x9E"
  "sub_byte 0xE0 = 0xE1" "sub_byte 0xE1 = 0xF8" "sub_byte 0xE2 = 0x98" "sub_byte 0xE3 = 0x11"
  "sub_byte 0xE4 = 0x69" "sub_byte 0xE5 = 0xD9" "sub_byte 0xE6 = 0x8E" "sub_byte 0xE7 = 0x94"
  "sub_byte 0xE8 = 0x9B" "sub_byte 0xE9 = 0x1E" "sub_byte 0xEA = 0x87" "sub_byte 0xEB = 0xE9"
  "sub_byte 0xEC = 0xCE" "sub_byte 0xED = 0x55" "sub_byte 0xEE = 0x28" "sub_byte 0xEF = 0xDF"
  "sub_byte 0xF0 = 0x8C" "sub_byte 0xF1 = 0xA1" "sub_byte 0xF2 = 0x89" "sub_byte 0xF3 = 0x0D"
  "sub_byte 0xF4 = 0xBF" "sub_byte 0xF5 = 0xE6" "sub_byte 0xF6 = 0x42" "sub_byte 0xF7 = 0x68"
  "sub_byte 0xF8 = 0x41" "sub_byte 0xF9 = 0x99" "sub_byte 0xFA = 0x2D" "sub_byte 0xFB = 0x0F"
  "sub_byte 0xFC = 0xB0" "sub_byte 0xFD = 0x54" "sub_byte 0xFE = 0xBB" "sub_byte 0xFF = 0x16"
  by (simp_all add: sub_byte_def sbox_table_def)

lemma xtime_values:
  "xtime 0 = 0" "xtime 1 = 0x02" "xtime 0x02 = 0x04" "xtime 0x03 = 0x06"
  "xtime 0x04 = 0x08" "xtime 0x05 = 0x0A" "xtime 0x06 = 0x0C" "xtime 0x07 = 0x0E"
  "xtime 0x08 = 0x10" "xtime 0x09 = 0x12" "xtime 0x0A = 0x14" "xtime 0x0B = 0x16"
  "xtime 0x0C = 0x18" "xtime 0x0D = 0x1A" "xtime 0x0E = 0x1C" "xtime 0x0F = 0x1E"
  "xtime 0x10 = 0x20" "xtime 0x11 = 0x22" "xtime 0x12 = 0x24" "xtime 0x13 = 0x26"
  "xtime 0x14 = 0x28" "xtime 0x15 = 0x2A" "xtime 0x16 = 0x2C" "xtime 0x17 = 0x2E"
  "xtime 0x18 = 0x30" "xtime 0x19 = 0x32" "xtime 0x1A = 0x34" "xtime 0x1B = 0x36"
  "xtime 0x1C = 0x38" "xtime 0x1D = 0x3A" "xtime 0x1E = 0x3C" "xtime 0x1F = 0x3E"
  "xtime 0x20 = 0x40" "xtime 0x21 = 0x42" "xtime 0x22 = 0x44" "xtime 0x23 = 0x46"
  "xtime 0x24 = 0x48" "xtime 0x25 = 0x4A" "xtime 0x26 = 0x4C" "xtime 0x27 = 0x4E"
  "xtime 0x28 = 0x50" "xtime 0x29 = 0x52" "xtime 0x2A = 0x54" "xtime 0x2B = 0x56"
  "xtime 0x2C = 0x58" "xtime 0x2D = 0x5A" "xtime 0x2E = 0x5C" "xtime 0x2F = 0x5E"
  "xtime 0x30 = 0x60" "xtime 0x31 = 0x62" "xtime 0x32 = 0x64" "xtime 0x33 = 0x66"
  "xtime 0x34 = 0x68" "xtime 0x35 = 0x6A" "xtime 0x36 = 0x6C" "xtime 0x37 = 0x6E"
  "xtime 0x38 = 0x70" "xtime 0x39 = 0x72" "xtime 0x3A = 0x74" "xtime 0x3B = 0x76"
  "xtime 0x3C = 0x78" "xtime 0x3D = 0x7A" "xtime 0x3E = 0x7C" "xtime 0x3F = 0x7E"
  "xtime 0x40 = 0x80" "xtime 0x41 = 0x82" "xtime 0x42 = 0x84" "xtime 0x43 = 0x86"
  "xtime 0x44 = 0x88" "xtime 0x45 = 0x8A" "xtime 0x46 = 0x8C" "xtime 0x47 = 0x8E"
  "xtime 0x48 = 0x90" "xtime 0x49 = 0x92" "xtime 0x4A = 0x94" "xtime 0x4B = 0x96"
  "xtime 0x4C = 0x98" "xtime 0x4D = 0x9A" "xtime 0x4E = 0x9C" "xtime 0x4F = 0x9E"
  "xtime 0x50 = 0xA0" "xtime 0x51 = 0xA2" "xtime 0x52 = 0xA4" "xtime 0x53 = 0xA6"
  "xtime 0x54 = 0xA8" "xtime 0x55 = 0xAA" "xtime 0x56 = 0xAC" "xtime 0x57 = 0xAE"
  "xtime 0x58 = 0xB0" "xtime 0x59 = 0xB2" "xtime 0x5A = 0xB4" "xtime 0x5B = 0xB6"
  "xtime 0x5C = 0xB8" "xtime 0x5D = 0xBA" "xtime 0x5E = 0xBC" "xtime 0x5F = 0xBE"
  "xtime 0x60 = 0xC0" "xtime 0x61 = 0xC2" "xtime 0x62 = 0xC4" "xtime 0x63 = 0xC6"
  "xtime 0x64 = 0xC8" "xtime 0x65 = 0xCA" "xtime 0x66 = 0xCC" "xtime 0x67 = 0xCE"
  "xtime 0x68 = 0xD0" "xtime 0x69 = 0xD2" "xtime 0x6A = 0xD4" "xtime 0x6B = 0xD6"
  "xtime 0x6C = 0xD8" "xtime 0x6D = 0xDA" "xtime 0x6E = 0xDC" "xtime 0x6F = 0xDE"
  "xtime 0x70 = 0xE0" "xtime 0x71 = 0xE2" "xtime 0x72 = 0xE4" "xtime 0x73 = 0xE6"
  "xtime 0x74 = 0xE8" "xtime 0x75 = 0xEA" "xtime 0x76 = 0xEC" "xtime 0x77 = 0xEE"
  "xtime 0x78 = 0xF0" "xtime 0x79 = 0xF2" "xtime 0x7A = 0xF4" "xtime 0x7B = 0xF6"
  "xtime 0x7C = 0xF8" "xtime 0x7D = 0xFA" "xtime 0x7E = 0xFC" "xtime 0x7F = 0xFE"
  "xtime 0x80 = 0x1B" "xtime 0x81 = 0x19" "xtime 0x82 = 0x1F" "xtime 0x83 = 0x1D"
  "xtime 0x84 = 0x13" "xtime 0x85 = 0x11" "xtime 0x86 = 0x17" "xtime 0x87 = 0x15"
  "xtime 0x88 = 0x0B" "xtime 0x89 = 0x09" "xtime 0x8A = 0x0F" "xtime 0x8B = 0x0D"
  "xtime 0x8C = 0x03" "xtime 0x8D = 1" "xtime 0x8E = 0x07" "xtime 0x8F = 0x05"
  "xtime 0x90 = 0x3B" "xtime 0x91 = 0x39" "xtime 0x92 = 0x3F" "xtime 0x93 = 0x3D"
  "xtime 0x94 = 0x33" "xtime 0x95 = 0x31" "xtime 0x96 = 0x37" "xtime 0x97 = 0x35"
  "xtime 0x98 = 0x2B" "xtime 0x99 = 0x29" "xtime 0x9A = 0x2F" "xtime 0x9B = 0x2D"
  "xtime 0x9C = 0x23" "xtime 0x9D = 0x21" "xtime 0x9E = 0x27" "xtime 0x9F = 0x25"
  "xtime 0xA0 = 0x5B" "xtime 0xA1 = 0x59" "xtime 0xA2 = 0x5F" "xtime 0xA3 = 0x5D"
  "xtime 0xA4 = 0x53" "xtime 0xA5 = 0x51" "xtime 0xA6 = 0x57" "xtime 0xA7 = 0x55"
  "xtime 0xA8 = 0x4B" "xtime 0xA9 = 0x49" "xtime 0xAA = 0x4F" "xtime 0xAB = 0x4D"
  "xtime 0xAC = 0x43" "xtime 0xAD = 0x41" "xtime 0xAE = 0x47" "xtime 0xAF = 0x45"
  "xtime 0xB0 = 0x7B" "xtime 0xB1 = 0x79" "xtime 0xB2 = 0x7F" "xtime 0xB3 = 0x7D"
  "xtime 0xB4 = 0x73" "xtime 0xB5 = 0x71" "xtime 0xB6 = 0x77" "xtime 0xB7 = 0x75"
  "xtime 0xB8 = 0x6B" "xtime 0xB9 = 0x69" "xtime 0xBA = 0x6F" "xtime 0xBB = 0x6D"
  "xtime 0xBC = 0x63" "xtime 0xBD = 0x61" "xtime 0xBE = 0x67" "xtime 0xBF = 0x65"
  "xtime 0xC0 = 0x9B" "xtime 0xC1 = 0x99" "xtime 0xC2 = 0x9F" "xtime 0xC3 = 0x9D"
  "xtime 0xC4 = 0x93" "xtime 0xC5 = 0x91" "xtime 0xC6 = 0x97" "xtime 0xC7 = 0x95"
  "xtime 0xC8 = 0x8B" "xtime 0xC9 = 0x89" "xtime 0xCA = 0x8F" "xtime 0xCB = 0x8D"
  "xtime 0xCC = 0x83" "xtime 0xCD = 0x81" "xtime 0xCE = 0x87" "xtime 0xCF = 0x85"
  "xtime 0xD0 = 0xBB" "xtime 0xD1 = 0xB9" "xtime 0xD2 = 0xBF" "xtime 0xD3 = 0xBD"
  "xtime 0xD4 = 0xB3" "xtime 0xD5 = 0xB1" "xtime 0xD6 = 0xB7" "xtime 0xD7 = 0xB5"
  "xtime 0xD8 = 0xAB" "xtime 0xD9 = 0xA9" "xtime 0xDA = 0xAF" "xtime 0xDB = 0xAD"
  "xtime 0xDC = 0xA3" "xtime 0xDD = 0xA1" "xtime 0xDE = 0xA7" "xtime 0xDF = 0xA5"
  "xtime 0xE0 = 0xDB" "xtime 0xE1 = 0xD9" "xtime 0xE2 = 0xDF" "xtime 0xE3 = 0xDD"
  "xtime 0xE4 = 0xD3" "xtime 0xE5 = 0xD1" "xtime 0xE6 = 0xD7" "xtime 0xE7 = 0xD5"
  "xtime 0xE8 = 0xCB" "xtime 0xE9 = 0xC9" "xtime 0xEA = 0xCF" "xtime 0xEB = 0xCD"
  "xtime 0xEC = 0xC3" "xtime 0xED = 0xC1" "xtime 0xEE = 0xC7" "xtime 0xEF = 0xC5"
  "xtime 0xF0 = 0xFB" "xtime 0xF1 = 0xF9" "xtime 0xF2 = 0xFF" "xtime 0xF3 = 0xFD"
  "xtime 0xF4 = 0xF3" "xtime 0xF5 = 0xF1" "xtime 0xF6 = 0xF7" "xtime 0xF7 = 0xF5"
  "xtime 0xF8 = 0xEB" "xtime 0xF9 = 0xE9" "xtime 0xFA = 0xEF" "xtime 0xFB = 0xED"
  "xtime 0xFC = 0xE3" "xtime 0xFD = 0xE1" "xtime 0xFE = 0xE7" "xtime 0xFF = 0xE5"
  by (simp_all add: xtime_def)

lemma key_expansion_example:
  "key_expansion rcon [0x2B, 0x7E, 0x15, 0x16, 0x28, 0xAE, 0xD2, 0xA6, 0xAB, 0xF7, 0x15, 0x88, 0x09, 0xCF, 0x4F, 0x3C] =
     [[0x2B, 0x7E, 0x15, 0x16, 0x28, 0xAE, 0xD2, 0xA6, 0xAB, 0xF7, 0x15, 0x88, 0x09, 0xCF, 0x4F, 0x3C],
      [0xA0, 0xFA, 0xFE, 0x17, 0x88, 0x54, 0x2C, 0xB1, 0x23, 0xA3, 0x39, 0x39, 0x2A, 0x6C, 0x76, 0x05],
      [0xF2, 0xC2, 0x95, 0xF2, 0x7A, 0x96, 0xB9, 0x43, 0x59, 0x35, 0x80, 0x7A, 0x73, 0x59, 0xF6, 0x7F],
      [0x3D, 0x80, 0x47, 0x7D, 0x47, 0x16, 0xFE, 0x3E, 0x1E, 0x23, 0x7E, 0x44, 0x6D, 0x7A, 0x88, 0x3B],
      [0xEF, 0x44, 0xA5, 0x41, 0xA8, 0x52, 0x5B, 0x7F, 0xB6, 0x71, 0x25, 0x3B, 0xDB, 0x0B, 0xAD, 0x00],
      [0xD4, 0xD1, 0xC6, 0xF8, 0x7C, 0x83, 0x9D, 0x87, 0xCA, 0xF2, 0xB8, 0xBC, 0x11, 0xF9, 0x15, 0xBC],
      [0x6D, 0x88, 0xA3, 0x7A, 0x11, 0x0B, 0x3E, 0xFD, 0xDB, 0xF9, 0x86, 0x41, 0xCA, 0x00, 0x93, 0xFD],
      [0x4E, 0x54, 0xF7, 0x0E, 0x5F, 0x5F, 0xC9, 0xF3, 0x84, 0xA6, 0x4F, 0xB2, 0x4E, 0xA6, 0xDC, 0x4F],
      [0xEA, 0xD2, 0x73, 0x21, 0xB5, 0x8D, 0xBA, 0xD2, 0x31, 0x2B, 0xF5, 0x60, 0x7F, 0x8D, 0x29, 0x2F],
      [0xAC, 0x77, 0x66, 0xF3, 0x19, 0xFA, 0xDC, 0x21, 0x28, 0xD1, 0x29, 0x41, 0x57, 0x5C, 0x00, 0x6E],
      [0xD0, 0x14, 0xF9, 0xA8, 0xC9, 0xEE, 0x25, 0x89, 0xE1, 0x3F, 0x0C, 0xC8, 0xB6, 0x63, 0x0C, 0xA6]]"
  by (simp add: rcon_def next_round_key_def rot_sub_rcon_def xor_block_def sub_byte_values)

lemmas aes_eval = aes128_encrypt_block_def key_expansion_example xor_block_def sub_bytes_def
  shift_rows_def sub_byte_values xtime_values

lemma zero_block: "replicate 16 (0::byte) = [0x00, 0x00, 0x00, 0x00, 0x00, 0x00, 0x00, 0x00, 0x00, 0x00, 0x00, 0x00, 0x00, 0x00, 0x00, 0x00]"
  by (simp add: numeral_eq_Suc)

lemma aes_example_zero:
  "aes128_encrypt_block [0x2B, 0x7E, 0x15, 0x16, 0x28, 0xAE, 0xD2, 0xA6, 0xAB, 0xF7, 0x15, 0x88, 0x09, 0xCF, 0x4F, 0x3C]
     [0x00, 0x00, 0x00, 0x00, 0x00, 0x00, 0x00, 0x00, 0x00, 0x00, 0x00, 0x00, 0x00, 0x00, 0x00, 0x00]
   = [0x7D, 0xF7, 0x6B, 0x0C, 0x1A, 0xB8, 0x99, 0xB3, 0x3E, 0x42, 0xF0, 0x47, 0xB9, 0x1B, 0x54, 0x6F]"
  by (simp add: aes_eval)

lemma aes_example_empty:
  "aes128_encrypt_block [0x2B, 0x7E, 0x15, 0x16, 0x28, 0xAE, 0xD2, 0xA6, 0xAB, 0xF7, 0x15, 0x88, 0x09, 0xCF, 0x4F, 0x3C]
     [0x77, 0xDD, 0xAC, 0x30, 0x6A, 0xE2, 0x66, 0xCC, 0xF9, 0x0B, 0xC1, 0x1E, 0xE4, 0x6D, 0x51, 0x3B]
   = [0xBB, 0x1D, 0x69, 0x29, 0xE9, 0x59, 0x37, 0x28, 0x7F, 0xA3, 0x7D, 0x12, 0x9B, 0x75, 0x67, 0x46]"
  by (simp add: aes_eval)

lemma aes_example_block:
  "aes128_encrypt_block [0x2B, 0x7E, 0x15, 0x16, 0x28, 0xAE, 0xD2, 0xA6, 0xAB, 0xF7, 0x15, 0x88, 0x09, 0xCF, 0x4F, 0x3C]
     [0x90, 0x2F, 0x68, 0xFA, 0x1B, 0x31, 0xAC, 0xF0, 0x95, 0xB8, 0x9E, 0x9E, 0x01, 0xA5, 0xBF, 0xF4]
   = [0x07, 0x0A, 0x16, 0xB4, 0x6B, 0x4D, 0x41, 0x44, 0xF7, 0x9B, 0xDD, 0x9D, 0xD0, 0x4A, 0x28, 0x7C]"
  by (simp add: aes_eval)

lemma leftShiftOne_loop_numeral:
  "leftShiftOne_loop (numeral k) data result carry =
     leftShiftOne_loop (pred_numeral k) data
       (result[pred_numeral k := (push_bit 1 (data ! pred_numeral k) OR carry) AND 0xFF])
       (drop_bit 7 (data ! pred_numeral k AND 0x80))"
  by (simp add: numeral_eq_Suc)

lemma list_update_numeral:
  "(x # xs)[numeral k := v] = x # xs[pred_numeral k := v]"
  by (simp add: numeral_eq_Suc)

lemma replicate_numeral_Cons:
  "replicate (numeral k) x = x # replicate (pred_numeral k) x"
  by (simp add: numeral_eq_Suc)

lemmas dbl_eval = dbl_bytes_def msb_set_def leftShiftOne_def Rb_bytes_def replicate_numeral_Cons
  leftShiftOne_loop_numeral list_update_numeral

lemma dbl_bytes_L:
  "dbl_bytes [0x7D, 0xF7, 0x6B, 0x0C, 0x1A, 0xB8, 0x99, 0xB3, 0x3E, 0x42, 0xF0, 0x47, 0xB9, 0x1B, 0x54, 0x6F]
   = [0xFB, 0xEE, 0xD6, 0x18, 0x35, 0x71, 0x33, 0x66, 0x7C, 0x85, 0xE0, 0x8F, 0x72, 0x36, 0xA8, 0xDE]"
  by (simp add: dbl_eval)

lemma dbl_bytes_K1:
  "dbl_bytes [0xFB, 0xEE, 0xD6, 0x18, 0x35, 0x71, 0x33, 0x66, 0x7C, 0x85, 0xE0, 0x8F, 0x72, 0x36, 0xA8, 0xDE]
   = [0xF7, 0xDD, 0xAC, 0x30, 0x6A, 0xE2, 0x66, 0xCC, 0xF9, 0x0B, 0xC1, 0x1E, 0xE4, 0x6D, 0x51, 0x3B]"
  by (simp add: dbl_eval)

lemma length_NIST_KEY: "length NIST_KEY = 16"
  by (simp add: NIST_KEY_def)

lemma nist_cbc_single: "nist_cbc key [b] = aes128_encrypt_block key (xor_block (replicate 16 0) b)"
  by (simp add: nist_cbc_def)

lemma cmac_NIST_empty:
  "cmac NIST_KEY [] = Inr [0xBB, 0x1D, 0x69, 0x29, 0xE9, 0x59, 0x37, 0x28,
                            0x7F, 0xA3, 0x7D, 0x12, 0x9B, 0x75, 0x67, 0x46]"
  unfolding cmac_eq [OF length_NIST_KEY]
  by (simp add: last_block_bytes_def nist_cbc_single nist_pad_def NIST_KEY_def zero_block
      replicate_numeral_Cons
      aes_example_zero dbl_bytes_L dbl_bytes_K1 xor_block_def aes_example_empty)

lemma cmac_NIST_block:
  "cmac NIST_KEY NIST_MESSAGE_16 = Inr [0x07, 0x0A, 0x16, 0xB4, 0x6B, 0x4D, 0x41, 0x44,
                                         0xF7, 0x9B, 0xDD, 0x9D, 0xD0, 0x4A, 0x28, 0x7C]"
proof -
  have b: "blocks16 NIST_MESSAGE_16 = [NIST_MESSAGE_16]"
    by (rule blocks16_single) (simp add: NIST_MESSAGE_16_def)
  show ?thesis
    unfolding cmac_eq [OF length_NIST_KEY] b
    by (simp add: last_block_bytes_def nist_cbc_single NIST_KEY_def NIST_MESSAGE_16_def zero_block
        aes_example_zero dbl_bytes_L xor_block_def aes_example_block)
qed

text \<open>
  Claim C4. \<open>cmac\<close> of crypto/cmac.ts, with \<open>generateCMACSubkeys\<close> of crypto/aes.ts, is
  AES-CMAC as NIST SP 800-38B states it. For every 16-byte key the subkeys the source derives
  are \<open>K1 = dbl L\<close> and \<open>K2 = dbl K1\<close> for \<open>L\<close> the encryption of the zero block, where
  \<open>dbl\<close> shifts the 128-bit value left by one bit and XORs \<open>R_b = 0x87\<close> into it when the bit
  shifted out is 1; and for every message the tag is the CBC chain from the zero block over
  the blocks of the message, the last one XORed with \<open>K1\<close> when it is full, and padded with
  \<open>0x80\<close> and zeros and XORed with \<open>K2\<close> when it is partial or the message is empty. For the
  key \<open>2B7E151628AED2A6ABF7158809CF4F3C\<close> the empty message has the tag
  \<open>BB1D6929E95937287FA37D129B756746\<close> and the 16 bytes \<open>6BC1BEE22E409F96E93D7E117393172A\<close>
  have the tag \<open>070A16B46B4D4144F79BDD9DD04A287C\<close>.
\<close>

theorem cmac_implements_nist:
  "(length key = 16 \<longrightarrow>
      generateCMACSubkeys key = Inr (nist_subkeys key) \<and> cmac key m = Inr (nist_cmac key m))
   \<and> cmac NIST_KEY [] = Inr [0xBB, 0x1D, 0x69, 0x29, 0xE9, 0x59, 0x37, 0x28,
                               0x7F, 0xA3, 0x7D, 0x12, 0x9B, 0x75, 0x67, 0x46]
   \<and> cmac NIST_KEY NIST_MESSAGE_16 = Inr [0x07, 0x0A, 0x16, 0xB4, 0x6B, 0x4D, 0x41, 0x44,
                                            0xF7, 0x9B, 0xDD, 0x9D, 0xD0, 0x4A, 0x28, 0x7C]"
proof (intro conjI impI)
  assume k: "length key = 16"
  show "generateCMACSubkeys key = Inr (nist_subkeys key)"
    unfolding generateCMACSubkeys_eq [OF k] nist_subkeys_eq [OF k] ..
  show "cmac key m = Inr (nist_cmac key m)" using k by (rule cmac_refines_nist)
next
  show "cmac NIST_KEY [] = Inr [0xBB, 0x1D, 0x69, 0x29, 0xE9, 0x59, 0x37, 0x28,
                                0x7F, 0xA3, 0x7D, 0x12, 0x9B, 0x75, 0x67, 0x46]"
    by (rule cmac_NIST_empty)
next
  show "cmac NIST_KEY NIST_MESSAGE_16 = Inr [0x07, 0x0A, 0x16, 0xB4, 0x6B, 0x4D, 0x41, 0x44,
                                             0xF7, 0x9B, 0xDD, 0x9D, 0xD0, 0x4A, 0x28, 0x7C]"
    by (rule cmac_NIST_block)
qed

theorem cmac_implements_nist_witness:
  "length NIST_KEY = 16
   \<and> nist_subkeys NIST_KEY =
        ([0xFB, 0xEE, 0xD6, 0x18, 0x35, 0x71, 0x33, 0x66, 0x7C, 0x85, 0xE0, 0x8F, 0x72, 0x36, 0xA8, 0xDE],
         [0xF7, 0xDD, 0xAC, 0x30, 0x6A, 0xE2, 0x66, 0xCC, 0xF9, 0x0B, 0xC1, 0x1E, 0xE4, 0x6D, 0x51, 0x3B])
   \<and> nist_cmac NIST_KEY [] = [0xBB, 0x1D, 0x69, 0x29, 0xE9, 0x59, 0x37, 0x28,
                                 0x7F, 0xA3, 0x7D, 0x12, 0x9B, 0x75, 0x67, 0x46]
   \<and> nist_cmac NIST_KEY NIST_MESSAGE_16 = [0x07, 0x0A, 0x16, 0xB4, 0x6B, 0x4D, 0x41, 0x44,
                                              0xF7, 0x9B, 0xDD, 0x9D, 0xD0, 0x4A, 0x28, 0x7C]"
proof -
  have s: "generateCMACSubkeys NIST_KEY =
        Inr ([0xFB, 0xEE, 0xD6, 0x18, 0x35, 0x71, 0x33, 0x66, 0x7C, 0x85, 0xE0, 0x8F, 0x72, 0x36, 0xA8, 0xDE],
         [0xF7, 0xDD, 0xAC, 0x30, 0x6A, 0xE2, 0x66, 0xCC, 0xF9, 0x0B, 0xC1, 0x1E, 0xE4, 0x6D, 0x51, 0x3B])"
    unfolding generateCMACSubkeys_eq [OF length_NIST_KEY]
    by (simp add: NIST_KEY_def zero_block aes_example_zero dbl_bytes_L dbl_bytes_K1)
  show ?thesis
    using cmac_implements_nist [of NIST_KEY "[]"] cmac_implements_nist [of NIST_KEY NIST_MESSAGE_16]
    unfolding s by (auto simp add: length_NIST_KEY)
qed

end
